theory Spec2Isabelle
  imports Main "HOL-Library.Char_ord" "HOL-Library.List_Lexorder" "HOL-Library.Multiset"
begin

section \<open>Text primitives of \<^verbatim>\<open>app.py\<close>\<close>

text \<open>
  Strings are \<^typ>\<open>string\<close>, a list of 8-bit characters. The model is that of ASCII
  text: \<^verbatim>\<open>str.lower\<close>, \<^verbatim>\<open>str.strip\<close> and the classes \<^verbatim>\<open>\s\<close> and \<^verbatim>\<open>\d\<close> of
  Python's \<^verbatim>\<open>re\<close> are taken on the code points below 128, every other character is
  left as it is and is neither a space nor a digit.
\<close>

definition is_space :: "char \<Rightarrow> bool" where
  \<comment> \<open>\<^verbatim>\<open>\s\<close> and \<^verbatim>\<open>str.isspace\<close>: tab, LF, VT, FF, CR, the separators 28 to 31, the blank\<close>
  "is_space c = (let n = (of_char c :: nat) in (9 \<le> n \<and> n \<le> 13) \<or> (28 \<le> n \<and> n \<le> 32))"

definition is_digit :: "char \<Rightarrow> bool" where
  \<comment> \<open>\<^verbatim>\<open>\d\<close>\<close>
  "is_digit c = (let n = (of_char c :: nat) in 48 \<le> n \<and> n \<le> 57)"

definition lower_char :: "char \<Rightarrow> char" where
  "lower_char c = (let n = (of_char c :: nat) in if 65 \<le> n \<and> n \<le> 90 then char_of (n + 32) else c)"

definition lower :: "string \<Rightarrow> string" where
  \<comment> \<open>\<^verbatim>\<open>str.lower()\<close>\<close>
  "lower s = map lower_char s"

definition strip :: "string \<Rightarrow> string" where
  \<comment> \<open>\<^verbatim>\<open>str.strip()\<close>: whitespace removed at both ends\<close>
  "strip s = rev (dropWhile is_space (rev (dropWhile is_space s)))"

fun startswith :: "string \<Rightarrow> string \<Rightarrow> bool" where
  \<comment> \<open>\<^verbatim>\<open>startswith s k\<close>: the text \<open>s\<close> begins with \<open>k\<close>\<close>
  "startswith s [] = True"
| "startswith [] (k # ks) = False"
| "startswith (c # cs) (k # ks) = (c = k \<and> startswith cs ks)"

fun contains :: "string \<Rightarrow> string \<Rightarrow> bool" where
  \<comment> \<open>\<^verbatim>\<open>Series.str.contains(key, regex=False)\<close> on one cell: \<^verbatim>\<open>key in s\<close>\<close>
  "contains [] key = (key = [])"
| "contains (c # cs) key = (startswith (c # cs) key \<or> contains cs key)"

fun join :: "string \<Rightarrow> string list \<Rightarrow> string" where
  \<comment> \<open>\<^verbatim>\<open>sep.join(xs)\<close>\<close>
  "join sep [] = []"
| "join sep [x] = x"
| "join sep (x # y # ys) = x @ sep @ join sep (y # ys)"

section \<open>Composition cleaning (lines 24 to 30)\<close>

definition is_punct :: "char \<Rightarrow> bool" where
  \<comment> \<open>the class \<^verbatim>\<open>[()\[\],]\<close>\<close>
  "is_punct c = (c = CHR ''('' \<or> c = CHR '')'' \<or> c = CHR ''['' \<or> c = CHR '']'' \<or> c = CHR '','')"

definition sub_punct :: "string \<Rightarrow> string" where
  \<comment> \<open>\<^verbatim>\<open>re.sub(r"[()\[\],]", " ", text)\<close>: each single match becomes a blank\<close>
  "sub_punct s = map (\<lambda>c. if is_punct c then CHR '' '' else c) s"

function sub_spaces :: "string \<Rightarrow> string" where
  \<comment> \<open>\<^verbatim>\<open>re.sub(r"\s+", " ", text)\<close>: scanning from the left, each maximal run of
      whitespace (the greedy match of \<^verbatim>\<open>\s+\<close>) becomes one blank\<close>
  "sub_spaces [] = []"
| "sub_spaces (c # cs) =
     (if is_space c then CHR '' '' # sub_spaces (dropWhile is_space cs)
      else c # sub_spaces cs)"
  by pat_completeness auto
termination
  by (relation "measure length") (auto simp: less_Suc_eq_le length_dropWhile_le)

fun clean_composition :: "string option \<Rightarrow> string" where
  \<comment> \<open>\<^verbatim>\<open>pd.isna(text)\<close> is the absent cell \<open>None\<close>\<close>
  "clean_composition None = []"
| "clean_composition (Some text) = strip (sub_spaces (sub_punct (lower text)))"

section \<open>Dosage extraction (lines 48 to 51)\<close>

definition units :: "string list" where
  \<comment> \<open>the unit literals of the three alternatives, in the order of the pattern\<close>
  "units = [''mg'', ''ml'', ''mcg'']"

definition match_at :: "string \<Rightarrow> (string \<times> string) option" where
  \<comment> \<open>One attempt of \<^verbatim>\<open>\d+\s*mg|\d+\s*ml|\d+\s*mcg\<close> at the head of \<open>s\<close>: the matched text and
      what follows it. \<^verbatim>\<open>\d+\<close> and \<^verbatim>\<open>\s*\<close> are greedy; giving back a digit or a space leaves
      a digit or a space where the next item needs a space or \<^verbatim>\<open>m\<close>, so backtracking finds
      nothing the greedy attempt does not (lemma \<open>match_at_complete\<close>).\<close>
  "match_at s =
     (let ds = takeWhile is_digit s; r1 = dropWhile is_digit s;
          ws = takeWhile is_space r1; r2 = dropWhile is_space r1
      in if ds = [] then None
         else case find (startswith r2) units of
                None \<Rightarrow> None
              | Some u \<Rightarrow> Some (ds @ ws @ u, drop (length u) r2))"

function findall :: "string \<Rightarrow> string list" where
  \<comment> \<open>\<^verbatim>\<open>re.findall\<close>: the non-overlapping matches from left to right; the pattern has no
      group, so each item is the whole matched text\<close>
  "findall [] = []"
| "findall (c # cs) =
     (case match_at (c # cs) of
        None \<Rightarrow> findall cs
      | Some (m, rest) \<Rightarrow> m # findall rest)"
  by pat_completeness auto
termination
proof (relation "measure length")
  fix c cs x m rest
  assume m: "match_at (c # cs) = Some x" and x: "(m, rest) = x"
  let ?s = "c # cs"
  from m have ds: "takeWhile is_digit ?s \<noteq> []"
    unfolding match_at_def Let_def by (auto split: if_splits)
  have "length (takeWhile is_digit ?s) + length (dropWhile is_digit ?s) = length ?s"
    by (metis length_append takeWhile_dropWhile_id)
  with ds have r1: "length (dropWhile is_digit ?s) < length ?s"
    by (cases "takeWhile is_digit ?s") auto
  have r2: "length (dropWhile is_space (dropWhile is_digit ?s)) \<le> length (dropWhile is_digit ?s)"
    by (rule length_dropWhile_le)
  from m x have "length rest \<le> length (dropWhile is_space (dropWhile is_digit ?s))"
    unfolding match_at_def Let_def by (auto split: if_splits option.splits)
  with r1 r2 show "(rest, c # cs) \<in> measure length" by simp
qed simp_all

definition extract_dosage :: "string \<Rightarrow> string" where
  "extract_dosage text = join '' '' (findall (lower text))"

section \<open>The table (lines 16 to 58)\<close>

text \<open>
  A row of the input file: each cell is a text or absent (\<open>None\<close>, pandas' \<^verbatim>\<open>NaN\<close>).
\<close>

record raw_row =
  raw_name :: "string option"
  short_composition1 :: "string option"
  short_composition2 :: "string option"
  raw_price :: "string option"

text \<open>
  A row of the working table \<^verbatim>\<open>df\<close>. The column \<^verbatim>\<open>clean_composition\<close> is the field
  \<open>clean_comp\<close> (the function of line 24 has the name already). A price is a number of
  the linear order \<open>'p\<close> or \<open>None\<close>, the \<^verbatim>\<open>NaN\<close> with which pandas marks a missing value.
\<close>

record 'p medicine =
  name :: string
  price :: "'p option"
  composition :: string
  clean_comp :: string
  clean_name :: string
  dosage :: string
  drug_group :: int

datatype error = AttributeError | PredictionError

definition to_numeric :: "(string \<Rightarrow> 'p option) \<Rightarrow> string option \<Rightarrow> 'p option" where
  \<comment> \<open>\<^verbatim>\<open>pd.to_numeric(..., errors="coerce")\<close> on one cell; \<open>num\<close> reads a number from a text
      and is \<open>None\<close> where the text is not one\<close>
  "to_numeric num cell = (case cell of None \<Rightarrow> None | Some s \<Rightarrow> num s)"

definition fillna :: "string option \<Rightarrow> string" where
  \<comment> \<open>\<^verbatim>\<open>.fillna("")\<close>\<close>
  "fillna cell = (case cell of None \<Rightarrow> [] | Some s \<Rightarrow> s)"

definition composition_of :: "raw_row \<Rightarrow> string" where
  \<comment> \<open>lines 32 to 35\<close>
  "composition_of r = fillna (short_composition1 r) @ '' '' @ fillna (short_composition2 r)"

definition kept_rows :: "raw_row list \<Rightarrow> raw_row list" where
  \<comment> \<open>line 38: the rows whose cleaned composition is not empty, in the order of the file\<close>
  "kept_rows rows = filter (\<lambda>r. clean_composition (Some (composition_of r)) \<noteq> []) rows"

definition categories :: "string list \<Rightarrow> string list" where
  \<comment> \<open>\<^verbatim>\<open>astype("category")\<close>: the distinct values, sorted\<close>
  "categories xs = sort (remdups xs)"

definition cat_code :: "string list \<Rightarrow> string \<Rightarrow> int" where
  \<comment> \<open>\<^verbatim>\<open>.cat.codes\<close>: the position of the value among the categories\<close>
  "cat_code cats x = int (length (takeWhile (\<lambda>y. y \<noteq> x) cats))"

definition build :: "(string \<Rightarrow> 'p option) \<Rightarrow> string list \<Rightarrow> raw_row \<Rightarrow> error + 'p medicine" where
  \<comment> \<open>the derived columns of one kept row; \<^verbatim>\<open>extract_dosage\<close> calls \<^verbatim>\<open>.lower()\<close> on the name,
      which an absent name (a float) does not have\<close>
  "build num cats r =
     (case raw_name r of
        None \<Rightarrow> Inl AttributeError
      | Some n \<Rightarrow>
          Inr \<lparr> name = n,
                price = to_numeric num (raw_price r),
                composition = composition_of r,
                clean_comp = clean_composition (Some (composition_of r)),
                clean_name = strip (lower n),
                dosage = extract_dosage n,
                drug_group = cat_code cats (clean_composition (Some (composition_of r))) \<rparr>)"

fun sequence :: "(error + 'a) list \<Rightarrow> error + 'a list" where
  \<comment> \<open>the first error ends the load\<close>
  "sequence [] = Inr []"
| "sequence (x # xs) =
     (case x of
        Inl e \<Rightarrow> Inl e
      | Inr v \<Rightarrow> (case sequence xs of Inl e \<Rightarrow> Inl e | Inr vs \<Rightarrow> Inr (v # vs)))"

definition load_dataset :: "(string \<Rightarrow> 'p option) \<Rightarrow> raw_row list \<Rightarrow> error + 'p medicine list" where
  "load_dataset num rows =
     (let kept = kept_rows rows;
          cats = categories (map (\<lambda>r. clean_composition (Some (composition_of r))) kept)
      in sequence (map (build num cats) kept))"

section \<open>The model files (lines 63 to 65, 81 to 83)\<close>

text \<open>
  The three pickled objects are not part of the repository: they are parameters, each a
  function that returns a value or raises. \<open>'v\<close> is the type of feature vectors, \<open>'c\<close>
  that of the classifier's class ids; the decoded label is compared with \<^verbatim>\<open>drug_group\<close>.
\<close>

record ('v, 'c) artifacts =
  tfidf_transform :: "string \<Rightarrow> error + 'v"
  model_predict :: "'v \<Rightarrow> error + 'c"
  inverse_transform :: "'c \<Rightarrow> error + int"

definition predict_group :: "('v, 'c) artifacts \<Rightarrow> string \<Rightarrow> error + int" where
  \<comment> \<open>lines 81 to 83\<close>
  "predict_group a text =
     (case tfidf_transform a text of
        Inl e \<Rightarrow> Inl e
      | Inr vec \<Rightarrow>
          (case model_predict a vec of
             Inl e \<Rightarrow> Inl e
           | Inr pred_group \<Rightarrow> inverse_transform a pred_group))"

section \<open>The recommendation (lines 70 to 97)\<close>

record 'p alternative =
  alt_name :: string
  alt_clean_comp :: string
  alt_price :: "'p option"

definition select_columns :: "'p medicine \<Rightarrow> 'p alternative" where
  \<comment> \<open>line 89: the columns \<^verbatim>\<open>name\<close>, \<^verbatim>\<open>clean_composition\<close> and \<^verbatim>\<open>price\<close>\<close>
  "select_columns r = \<lparr> alt_name = name r, alt_clean_comp = clean_comp r, alt_price = price r \<rparr>"

definition known :: "'p alternative list \<Rightarrow> ('p \<times> 'p alternative) list" where
  \<comment> \<open>the rows with a price, each with its price\<close>
  "known xs = List.map_filter (\<lambda>a. map_option (\<lambda>p. (p, a)) (alt_price a)) xs"

definition sort_values :: "('p::linorder) alternative list \<Rightarrow> 'p alternative list" where
  \<comment> \<open>\<^verbatim>\<open>sort_values(by="price", ascending=True)\<close>, with the default \<^verbatim>\<open>na_position="last"\<close>:
      the rows with a price in ascending order, then the rows without one in the order
      they had. Among equal prices pandas' default sort promises no order; here they keep
      theirs.\<close>
  "sort_values xs = map snd (sort_key fst (known xs)) @ filter (\<lambda>a. alt_price a = None) xs"

definition head :: "int \<Rightarrow> 'a list \<Rightarrow> 'a list" where
  \<comment> \<open>\<^verbatim>\<open>DataFrame.head(n)\<close> is \<^verbatim>\<open>iloc[:n]\<close>: the first \<open>n\<close> rows, and for a negative \<open>n\<close> all
      rows but the last \<open>- n\<close>\<close>
  "head n xs = (if 0 \<le> n then take (nat n) xs else take (length xs - nat (- n)) xs)"

definition lookup_key :: "string \<Rightarrow> string" where
  \<comment> \<open>line 71\<close>
  "lookup_key medicine_name = strip (lower medicine_name)"

definition matches :: "'p medicine list \<Rightarrow> string \<Rightarrow> 'p medicine list" where
  \<comment> \<open>line 73\<close>
  "matches df key = filter (\<lambda>r. contains (clean_name r) key) df"

definition alternatives :: "'p medicine list \<Rightarrow> int \<Rightarrow> 'p medicine \<Rightarrow> 'p medicine list" where
  \<comment> \<open>the row filter of lines 85 to 88\<close>
  "alternatives df real_group row =
     filter (\<lambda>r. drug_group r = real_group \<and> dosage r = dosage row \<and> clean_name r \<noteq> clean_name row) df"

definition recommend_alternatives ::
  "('v, 'c) artifacts \<Rightarrow> ('p::linorder) medicine list \<Rightarrow> string \<Rightarrow> int \<Rightarrow> error + 'p alternative list option" where
  \<comment> \<open>\<open>Inr None\<close> is the \<^verbatim>\<open>None\<close> the function returns, \<open>Inr (Some xs)\<close> a frame of rows,
      \<open>Inl e\<close> an exception that leaves the function\<close>
  "recommend_alternatives a df medicine_name top_n =
     (case matches df (lookup_key medicine_name) of
        [] \<Rightarrow> Inr None
      | row # _ \<Rightarrow>
          (case predict_group a (clean_comp row) of
             Inl e \<Rightarrow> Inl e
           | Inr real_group \<Rightarrow>
               (let alts = map select_columns (alternatives df real_group row)
                in if alts = [] then Inr None
                   else Inr (Some (head top_n (sort_values alts))))))"

section \<open>The text normalizer as the specification words it\<close>

text \<open>
  Section 4.1 of the specification, step by step: lowercase; replace each of
  \<^verbatim>\<open>( ) [ ] ,\<close> with a space; collapse runs of whitespace to a single space; trim leading
  and trailing whitespace. An absent value gives the empty string. These definitions
  follow the specification's words and are compared with \<open>clean_composition\<close> below.
\<close>

definition replace_brackets :: "string \<Rightarrow> string" where
  "replace_brackets s = map (\<lambda>c. if c \<in> set ''()[],'' then CHR '' '' else c) s"

fun collapse_runs :: "string \<Rightarrow> string" where
  \<comment> \<open>a whitespace character followed by another one is dropped; the last of a run
      becomes the blank\<close>
  "collapse_runs [] = []"
| "collapse_runs [c] = [if is_space c then CHR '' '' else c]"
| "collapse_runs (c # d # cs) =
     (if is_space c \<and> is_space d then collapse_runs (d # cs)
      else (if is_space c then CHR '' '' else c) # collapse_runs (d # cs))"

fun trim_leading :: "string \<Rightarrow> string" where
  "trim_leading [] = []"
| "trim_leading (c # cs) = (if is_space c then trim_leading cs else c # cs)"

definition trim :: "string \<Rightarrow> string" where
  "trim s = rev (trim_leading (rev (trim_leading s)))"

definition normalize_composition :: "string option \<Rightarrow> string" where
  "normalize_composition text =
     (case text of
        None \<Rightarrow> []
      | Some s \<Rightarrow> trim (collapse_runs (replace_brackets (map lower_char s))))"

section \<open>The price on the page (line 187)\<close>

text \<open>
  Each returned row is printed with \<^verbatim>\<open>Price: ...{row['price']}\<close>: the price cell goes
  through Python's \<^verbatim>\<open>str\<close>, which prints the float \<^verbatim>\<open>NaN\<close> as \<^verbatim>\<open>nan\<close>. \<open>fmt\<close> stands
  for \<^verbatim>\<open>str\<close> on the other floats.
\<close>

definition price_text :: "('p \<Rightarrow> string) \<Rightarrow> 'p option \<Rightarrow> string" where
  "price_text fmt p = (case p of None \<Rightarrow> ''nan'' | Some x \<Rightarrow> fmt x)"

definition price_column :: "('p \<Rightarrow> string) \<Rightarrow> 'p alternative list \<Rightarrow> string list" where
  \<comment> \<open>the prices printed by the loop of lines 180 to 188, from the first card to the last\<close>
  "price_column fmt results = map (\<lambda>row. price_text fmt (alt_price row)) results"

section \<open>A small table\<close>

text \<open>
  Seven rows of a file, a reader of unsigned decimal prices, and model files that put
  paracetamol in group 1 and everything else in group 0, as the category codes of the
  loaded table do (\<^verbatim>\<open>ambroxol\<close> sorts before \<^verbatim>\<open>paracetamol\<close>). The table of six rows is
  what the load makes of the file (lemma \<open>load_example\<close>).
\<close>

definition example_rows :: "raw_row list" where
  "example_rows =
     [\<lparr> raw_name = Some ''Paracetamol 500mg'', short_composition1 = Some ''Paracetamol'',
         short_composition2 = None, raw_price = Some ''10'' \<rparr>,
      \<lparr> raw_name = Some ''Crocin 500mg'', short_composition1 = Some ''Paracetamol'',
         short_composition2 = None, raw_price = Some ''8'' \<rparr>,
      \<lparr> raw_name = Some ''Paracetamol 650mg'', short_composition1 = Some ''Paracetamol'',
         short_composition2 = None, raw_price = Some ''12'' \<rparr>,
      \<lparr> raw_name = Some ''Unlabelled 500mg'', short_composition1 = None,
         short_composition2 = None, raw_price = Some ''5'' \<rparr>,
      \<lparr> raw_name = Some ''Calpol 500mg'', short_composition1 = Some ''Paracetamol'',
         short_composition2 = None, raw_price = Some ''N/A'' \<rparr>,
      \<lparr> raw_name = Some ''Dolo 500mg'', short_composition1 = Some ''Paracetamol'',
         short_composition2 = None, raw_price = Some ''9'' \<rparr>,
      \<lparr> raw_name = Some ''Mucolite 500mg'', short_composition1 = Some ''Ambroxol'',
         short_composition2 = None, raw_price = Some ''7'' \<rparr>]"

definition example_num :: "string \<Rightarrow> nat option" where
  "example_num s =
     (if s \<noteq> [] \<and> list_all is_digit s
      then Some (foldl (\<lambda>n c. 10 * n + (of_char c - 48)) 0 s) else None)"

definition example_table :: "nat medicine list" where
  "example_table =
     [\<lparr> name = ''Paracetamol 500mg'', price = Some 10, composition = ''Paracetamol '',
         clean_comp = ''paracetamol'', clean_name = ''paracetamol 500mg'',
         dosage = ''500mg'', drug_group = 1 \<rparr>,
      \<lparr> name = ''Crocin 500mg'', price = Some 8, composition = ''Paracetamol '',
         clean_comp = ''paracetamol'', clean_name = ''crocin 500mg'',
         dosage = ''500mg'', drug_group = 1 \<rparr>,
      \<lparr> name = ''Paracetamol 650mg'', price = Some 12, composition = ''Paracetamol '',
         clean_comp = ''paracetamol'', clean_name = ''paracetamol 650mg'',
         dosage = ''650mg'', drug_group = 1 \<rparr>,
      \<lparr> name = ''Calpol 500mg'', price = None, composition = ''Paracetamol '',
         clean_comp = ''paracetamol'', clean_name = ''calpol 500mg'',
         dosage = ''500mg'', drug_group = 1 \<rparr>,
      \<lparr> name = ''Dolo 500mg'', price = Some 9, composition = ''Paracetamol '',
         clean_comp = ''paracetamol'', clean_name = ''dolo 500mg'',
         dosage = ''500mg'', drug_group = 1 \<rparr>,
      \<lparr> name = ''Mucolite 500mg'', price = Some 7, composition = ''Ambroxol '',
         clean_comp = ''ambroxol'', clean_name = ''mucolite 500mg'',
         dosage = ''500mg'', drug_group = 0 \<rparr>]"

fun show_nat :: "nat \<Rightarrow> string" where
  \<comment> \<open>the decimal digits of a price of the small table\<close>
  "show_nat n = (if n < 10 then [char_of (48 + n)] else show_nat (n div 10) @ [char_of (48 + n mod 10)])"

definition example_artifacts :: "(string, nat) artifacts" where
  "example_artifacts =
     \<lparr> tfidf_transform = (\<lambda>text. Inr text),
       model_predict = (\<lambda>vec. Inr (if vec = ''paracetamol'' then 1 else 0)),
       inverse_transform = (\<lambda>c. Inr (int c)) \<rparr>"

definition failing_artifacts :: "(string, nat) artifacts" where
  \<comment> \<open>a label decoder that has not seen the class it is given\<close>
  "failing_artifacts = example_artifacts \<lparr> inverse_transform := (\<lambda>c. Inl PredictionError) \<rparr>"

section \<open>Properties of the text primitives\<close>

lemma startswith_iff: "startswith s k \<longleftrightarrow> (\<exists>v. s = k @ v)"
  by (induction s k rule: startswith.induct) auto

lemma contains_iff: "contains s k \<longleftrightarrow> (\<exists>u v. s = u @ k @ v)"
proof (induction s)
  case Nil
  then show ?case by auto
next
  case (Cons c cs)
  show ?case
  proof
    assume "contains (c # cs) k"
    then consider "startswith (c # cs) k" | "contains cs k" by auto
    then show "\<exists>u v. c # cs = u @ k @ v"
    proof cases
      case 1
      then obtain v where "c # cs = k @ v" by (auto simp: startswith_iff)
      then have "c # cs = [] @ k @ v" by simp
      then show ?thesis by blast
    next
      case 2
      with Cons.IH obtain u v where "cs = u @ k @ v" by blast
      then have "c # cs = (c # u) @ k @ v" by simp
      then show ?thesis by blast
    qed
  next
    assume "\<exists>u v. c # cs = u @ k @ v"
    then obtain u v where e: "c # cs = u @ k @ v" by blast
    show "contains (c # cs) k"
    proof (cases u)
      case Nil
      with e have "startswith (c # cs) k" by (auto simp: startswith_iff)
      then show ?thesis by simp
    next
      case (Cons d u')
      with e have "cs = u' @ k @ v" by simp
      with Cons.IH have "contains cs k" by blast
      then show ?thesis by simp
    qed
  qed
qed

lemma contains_empty_key: "contains s []"
  by (cases s) simp_all

lemma is_space_lower_char: "is_space (lower_char c) = is_space c"
  by (auto simp: is_space_def lower_char_def Let_def)

lemma is_digit_lower_char: "is_digit (lower_char c) = is_digit c"
  by (auto simp: is_digit_def lower_char_def Let_def)

lemma strip_blank: "\<forall>c\<in>set s. is_space c \<Longrightarrow> strip s = []"
proof -
  assume "\<forall>c\<in>set s. is_space c"
  then have "dropWhile is_space s = []" by (induction s) auto
  then show ?thesis by (simp only: strip_def rev.simps dropWhile.simps)
qed

lemma lookup_key_blank: "\<forall>c\<in>set q. is_space c \<Longrightarrow> lookup_key q = []"
  unfolding lookup_key_def by (rule strip_blank) (simp add: lower_def is_space_lower_char)

lemma matches_empty_key: "matches df [] = df"
  by (simp add: matches_def contains_empty_key)

subsection \<open>Sorting by price\<close>

lemma known_Nil: "known [] = []"
  by (simp add: known_def map_filter_simps)

lemma known_Cons:
  "known (a # xs) = (case alt_price a of None \<Rightarrow> known xs | Some p \<Rightarrow> (p, a) # known xs)"
  by (simp add: known_def map_filter_simps split: option.splits)

lemma known_append: "known (xs @ ys) = known xs @ known ys"
  by (induction xs) (simp_all add: known_Nil known_Cons split: option.splits)

lemma known_mem: "a \<in> set xs \<Longrightarrow> alt_price a = Some p \<Longrightarrow> (p, a) \<in> set (known xs)"
  by (induction xs) (auto simp: known_Cons split: option.splits)

lemma known_none: "\<forall>a\<in>set xs. alt_price a = None \<Longrightarrow> known xs = []"
  by (induction xs) (simp_all add: known_Nil known_Cons)

lemma known_pairs: "(p, a) \<in> set (known xs) \<Longrightarrow> alt_price a = Some p \<and> a \<in> set xs"
  by (induction xs) (auto simp: known_Nil known_Cons split: option.splits)

lemma known_map_snd: "\<forall>(p, a)\<in>set ps. alt_price a = Some p \<Longrightarrow> known (map snd ps) = ps"
  by (induction ps) (auto simp: known_Nil known_Cons)

lemma known_sort_values: "known (sort_values xs) = sort_key fst (known xs)"
proof -
  have "\<forall>(p, a)\<in>set (sort_key fst (known xs)). alt_price a = Some p"
    using known_pairs by fastforce
  then have "known (map snd (sort_key fst (known xs))) = sort_key fst (known xs)"
    by (rule known_map_snd)
  moreover have "known (filter (\<lambda>a. alt_price a = None) xs) = []"
    by (rule known_none) simp
  ultimately show ?thesis by (simp add: sort_values_def known_append)
qed

lemma sorted_known_sort_values: "sorted (map fst (known (sort_values xs)))"
  by (simp add: known_sort_values)

lemma sorted_known_take:
  assumes "sorted (map fst (known xs))"
  shows "sorted (map fst (known (take k xs)))"
proof -
  have "known xs = known (take k xs) @ known (drop k xs)"
    by (metis append_take_drop_id known_append)
  with assms show ?thesis by (simp add: sorted_append)
qed

lemma sorted_known_nth:
  assumes "sorted (map fst (known xs))" and "i < j" and "j < length xs"
    and "alt_price (xs ! i) = Some p" and "alt_price (xs ! j) = Some p'"
  shows "p \<le> p'"
proof -
  from assms(2,3) have "xs ! i \<in> set (take j xs)"
    by (metis in_set_conv_nth length_take min_less_iff_conj nth_take order_less_trans)
  then have l: "(p, xs ! i) \<in> set (known (take j xs))" using assms(4) by (rule known_mem)
  from assms(3) have "drop j xs = xs ! j # drop (Suc j) xs" by (simp add: Cons_nth_drop_Suc)
  with assms(5) have r: "(p', xs ! j) \<in> set (known (drop j xs))" by (simp add: known_Cons)
  have "known xs = known (take j xs) @ known (drop j xs)"
    by (metis append_take_drop_id known_append)
  with assms(1) have "\<forall>x\<in>set (known (take j xs)). \<forall>y\<in>set (known (drop j xs)). fst x \<le> fst y"
    by (simp add: sorted_append)
  with l r show ?thesis by fastforce
qed

lemma size_sort_values: "length (sort_values xs) = length xs"
proof -
  have "length (known xs) = length (filter (\<lambda>a. alt_price a \<noteq> None) xs)"
    by (induction xs) (auto simp: known_Nil known_Cons split: option.splits)
  then have "length (sort_values xs) = length (filter (\<lambda>a. alt_price a \<noteq> None) xs) + length (filter (\<lambda>a. \<not> alt_price a \<noteq> None) xs)"
    by (simp add: sort_values_def)
  then show ?thesis by (simp only: sum_length_filter_compl)
qed

lemma set_sort_values: "set (sort_values xs) = set xs"
proof -
  have "snd ` set (known xs) = {a \<in> set xs. alt_price a \<noteq> None}"
    by (induction xs) (auto simp: known_Nil known_Cons split: option.splits)
  then show ?thesis by (auto simp: sort_values_def)
qed

lemma sort_values_missing_last:
  assumes "i < j" and "j < length (sort_values xs)" and "alt_price (sort_values xs ! i) = None"
  shows "alt_price (sort_values xs ! j) = None"
proof -
  let ?K = "map snd (sort_key fst (known xs))" and ?M = "filter (\<lambda>a. alt_price a = None) xs"
  have K: "\<forall>a\<in>set ?K. alt_price a \<noteq> None" using known_pairs by fastforce
  have sv: "sort_values xs = ?K @ ?M" by (simp add: sort_values_def)
  have "\<not> i < length ?K"
  proof
    assume "i < length ?K"
    then have "sort_values xs ! i = ?K ! i" by (simp add: sv nth_append)
    with \<open>i < length ?K\<close> have "sort_values xs ! i \<in> set ?K" by (metis nth_mem)
    with K assms(3) show False by blast
  qed
  with assms(1) have "\<not> j < length ?K" by simp
  with assms(2) have "sort_values xs ! j \<in> set ?M"
    by (simp add: sv nth_append del: set_filter)
  then show ?thesis by simp
qed

lemma head_nonneg: "0 \<le> n \<Longrightarrow> head n xs = take (nat n) xs"
  by (simp add: head_def)

lemma head_is_take: "\<exists>k. head n xs = take k xs"
  by (auto simp: head_def)

section \<open>Properties of the recommendation\<close>

lemma filter_first:
  "\<exists>x\<in>set xs. P x \<Longrightarrow>
   \<exists>i<length xs. P (xs ! i) \<and> (\<forall>j<i. \<not> P (xs ! j)) \<and> (\<exists>rest. filter P xs = xs ! i # rest)"
proof (induction xs)
  case Nil
  then show ?case by simp
next
  case (Cons x xs)
  show ?case
  proof (cases "P x")
    case True
    then have "P ((x # xs) ! 0) \<and> (\<forall>j<0. \<not> P ((x # xs) ! j)) \<and> (\<exists>rest. filter P (x # xs) = (x # xs) ! 0 # rest)"
      by simp
    then show ?thesis by blast
  next
    case False
    with Cons.prems have "\<exists>x\<in>set xs. P x" by auto
    with Cons.IH obtain i where i: "i < length xs" "P (xs ! i)" "\<forall>j<i. \<not> P (xs ! j)"
      "\<exists>rest. filter P xs = xs ! i # rest" by blast
    have "\<forall>j<Suc i. \<not> P ((x # xs) ! j)"
    proof (intro allI impI)
      fix j assume "j < Suc i"
      then show "\<not> P ((x # xs) ! j)" using False i(3) by (cases j) auto
    qed
    with i False have "Suc i < length (x # xs) \<and> P ((x # xs) ! Suc i) \<and> (\<forall>j<Suc i. \<not> P ((x # xs) ! j)) \<and>
       (\<exists>rest. filter P (x # xs) = (x # xs) ! Suc i # rest)"
      by simp
    then show ?thesis by blast
  qed
qed

lemma set_head_subset: "set (head n xs) \<subseteq> set xs"
  by (auto simp: head_def dest: in_set_takeD)

lemma head_all: "int (length xs) \<le> n \<Longrightarrow> head n xs = xs"
  by (simp add: head_def)

lemma predict_group_Inr:
  "predict_group a t = Inr g \<longleftrightarrow>
     (\<exists>vec c. tfidf_transform a t = Inr vec \<and> model_predict a vec = Inr c \<and>
        inverse_transform a c = Inr g)"
  by (auto simp: predict_group_def split: sum.splits)

lemma filter_least:
  assumes "i < length xs" and "P (xs ! i)" and "\<forall>j<i. \<not> P (xs ! j)"
  shows "\<exists>rest. filter P xs = xs ! i # rest"
proof -
  from assms(1) have "xs ! i \<in> set xs" by simp
  with assms(2) have "\<exists>x\<in>set xs. P x" by blast
  from filter_first[OF this] obtain k rest where k: "k < length xs" "P (xs ! k)"
    "\<forall>j<k. \<not> P (xs ! j)" "filter P xs = xs ! k # rest" by blast
  from k(2,3) assms(2,3) have "k = i" by (meson linorder_neqE_nat)
  with k(4) show ?thesis by blast
qed

lemma matches_first:
  "(\<exists>rest. matches df (lookup_key q) = row # rest) \<longleftrightarrow>
   (\<exists>i<length df. row = df ! i \<and>
      (\<exists>u v. clean_name (df ! i) = u @ strip (lower q) @ v) \<and>
      (\<forall>j<i. \<not> (\<exists>u v. clean_name (df ! j) = u @ strip (lower q) @ v)))"
  (is "?L \<longleftrightarrow> ?R")
proof
  let ?P = "\<lambda>r. contains (clean_name r) (strip (lower q))"
  assume ?L
  then obtain rest where m: "filter ?P df = row # rest"
    by (auto simp: matches_def lookup_key_def)
  then have "row \<in> set (filter ?P df)" by simp
  then have "\<exists>x\<in>set df. ?P x" by auto
  from filter_first[OF this] obtain i rest' where "i < length df" "?P (df ! i)"
    "\<forall>j<i. \<not> ?P (df ! j)" "filter ?P df = df ! i # rest'" by blast
  with m show ?R unfolding contains_iff by auto
next
  let ?P = "\<lambda>r. contains (clean_name r) (strip (lower q))"
  assume ?R
  then obtain i where "i < length df" "row = df ! i" "?P (df ! i)" "\<forall>j<i. \<not> ?P (df ! j)"
    unfolding contains_iff by blast
  with filter_least[of i df ?P] show ?L by (simp add: matches_def lookup_key_def)
qed

lemma length_alternatives_le: "length (alternatives df g row) \<le> length df"
  by (simp add: alternatives_def)

lemma load_example: "load_dataset example_num example_rows = Inr example_table"
  by code_simp

lemma matches_Nil_iff: "matches df key = [] \<longleftrightarrow> \<not> (\<exists>r\<in>set df. \<exists>u v. clean_name r = u @ key @ v)"
  by (simp add: matches_def filter_empty_conv contains_iff)

lemma set_alternatives:
  "set (alternatives df g row) =
     {r \<in> set df. drug_group r = g \<and> dosage r = dosage row \<and> clean_name r \<noteq> clean_name row}"
  by (simp add: alternatives_def)

lemma recommend_no_match:
  "matches df (lookup_key q) = [] \<Longrightarrow> recommend_alternatives a df q n = Inr None"
  by (simp add: recommend_alternatives_def)

lemma recommend_failure:
  "matches df (lookup_key q) = row # rest \<Longrightarrow> predict_group a (clean_comp row) = Inl e \<Longrightarrow>
   recommend_alternatives a df q n = Inl e"
  by (simp add: recommend_alternatives_def)

lemma recommend_group:
  "matches df (lookup_key q) = row # rest \<Longrightarrow> predict_group a (clean_comp row) = Inr g \<Longrightarrow>
   recommend_alternatives a df q n =
     (if alternatives df g row = [] then Inr None
      else Inr (Some (head n (sort_values (map select_columns (alternatives df g row))))))"
  by (simp add: recommend_alternatives_def Let_def)

lemma recommend_cases:
  obtains (no_match) "matches df (lookup_key q) = []" "recommend_alternatives a df q n = Inr None"
  | (failure) row rest e where "matches df (lookup_key q) = row # rest"
      "predict_group a (clean_comp row) = Inl e" "recommend_alternatives a df q n = Inl e"
  | (no_alternative) row rest g where "matches df (lookup_key q) = row # rest"
      "predict_group a (clean_comp row) = Inr g" "alternatives df g row = []"
      "recommend_alternatives a df q n = Inr None"
  | (found) row rest g where "matches df (lookup_key q) = row # rest"
      "predict_group a (clean_comp row) = Inr g" "alternatives df g row \<noteq> []"
      "recommend_alternatives a df q n =
         Inr (Some (head n (sort_values (map select_columns (alternatives df g row)))))"
proof (cases "matches df (lookup_key q)")
  case Nil
  then show ?thesis using no_match recommend_no_match by blast
next
  case (Cons row rest)
  show ?thesis
  proof (cases "predict_group a (clean_comp row)")
    case (Inl e)
    with Cons show ?thesis using failure recommend_failure by blast
  next
    case (Inr g)
    with Cons show ?thesis
      using no_alternative[OF Cons Inr] found[OF Cons Inr] recommend_group[OF Cons Inr, of n]
      by (cases "alternatives df g row = []") simp_all
  qed
qed

section \<open>Blank queries\<close>

text \<open>
  Claim C10. A query that is empty or made of whitespace only has the empty lookup key,
  which every \<^verbatim>\<open>clean_name\<close> contains: on a table with a first row \<open>r\<close> every row
  matches, the reference row is \<open>r\<close>, and the result is computed from \<open>r\<close> (the
  prediction on its cleaned composition, then the filter, the sort and the cut).
\<close>
theorem blank_query_takes_first_row:
  assumes "\<forall>c\<in>set q. is_space c"
  shows "matches (r # rs) (lookup_key q) = r # rs \<and>
         recommend_alternatives a (r # rs) q n =
           (case predict_group a (clean_comp r) of
              Inl e \<Rightarrow> Inl e
            | Inr g \<Rightarrow>
                if alternatives (r # rs) g r = [] then Inr None
                else Inr (Some (head n (sort_values (map select_columns (alternatives (r # rs) g r))))))"
proof -
  from assms have m: "matches (r # rs) (lookup_key q) = r # rs"
    by (simp add: lookup_key_blank matches_empty_key)
  show ?thesis
  proof (cases "predict_group a (clean_comp r)")
    case (Inl e)
    with m show ?thesis by (simp add: recommend_failure)
  next
    case (Inr g)
    with m show ?thesis by (simp add: recommend_group)
  qed
qed

theorem blank_query_takes_first_row_witness:
  "matches example_table (lookup_key ''  '') = example_table \<and>
   recommend_alternatives example_artifacts example_table ''  '' 5 =
     Inr (Some [select_columns (example_table ! 1), select_columns (example_table ! 4),
                select_columns (example_table ! 3)])"
proof -
  have h: "\<forall>c\<in>set ''  ''. is_space c" by (simp add: is_space_def)
  have e: "hd example_table # tl example_table = example_table" by (simp add: example_table_def)
  have v: "(case predict_group example_artifacts (clean_comp (hd example_table)) of
              Inl e \<Rightarrow> Inl e
            | Inr g \<Rightarrow>
                if alternatives example_table g (hd example_table) = [] then Inr None
                else Inr (Some (head 5 (sort_values (map select_columns
                       (alternatives example_table g (hd example_table))))))) =
           Inr (Some [select_columns (example_table ! 1), select_columns (example_table ! 4),
                select_columns (example_table ! 3)])"
    by code_simp
  from blank_query_takes_first_row[OF h, of "hd example_table" "tl example_table" example_artifacts 5]
  show ?thesis unfolding e v .
qed

section \<open>When nothing is found\<close>

text \<open>
  Claim C3. \<^verbatim>\<open>recommend_alternatives\<close> returns \<^verbatim>\<open>None\<close> exactly when no \<^verbatim>\<open>clean_name\<close> of
  the table contains the query, lowercased and then stripped, as a literal substring, or
  the first row whose \<^verbatim>\<open>clean_name\<close> does is given a label by the three model objects and
  no row of the table has that label as \<^verbatim>\<open>drug_group\<close>, the reference's \<^verbatim>\<open>dosage\<close> and
  another \<^verbatim>\<open>clean_name\<close>. On a table where no \<^verbatim>\<open>clean_name\<close> contains
  \<^verbatim>\<open>xyznonexistentdrug123\<close>, that query with \<open>top_n = 5\<close> returns \<^verbatim>\<open>None\<close>.
\<close>

theorem not_found_iff:
  "(recommend_alternatives a df q n = Inr None \<longleftrightarrow>
      \<not> (\<exists>r\<in>set df. \<exists>u v. clean_name r = u @ strip (lower q) @ v) \<or>
      (\<exists>i<length df.
          (\<exists>u v. clean_name (df ! i) = u @ strip (lower q) @ v) \<and>
          (\<forall>j<i. \<not> (\<exists>u v. clean_name (df ! j) = u @ strip (lower q) @ v)) \<and>
          (\<exists>vec c g.
              tfidf_transform a (clean_comp (df ! i)) = Inr vec \<and> model_predict a vec = Inr c \<and>
              inverse_transform a c = Inr g \<and>
              {r \<in> set df. drug_group r = g \<and> dosage r = dosage (df ! i) \<and>
                           clean_name r \<noteq> clean_name (df ! i)} = {}))) \<and>
   ((\<forall>r\<in>set df. \<not> (\<exists>u v. clean_name r = u @ ''xyznonexistentdrug123'' @ v)) \<longrightarrow>
      recommend_alternatives a df ''xyznonexistentdrug123'' 5 = Inr None)"
proof (intro conjI impI)
  let ?A = "\<not> (\<exists>r\<in>set df. \<exists>u v. clean_name r = u @ strip (lower q) @ v)"
  let ?B = "\<exists>i<length df.
          (\<exists>u v. clean_name (df ! i) = u @ strip (lower q) @ v) \<and>
          (\<forall>j<i. \<not> (\<exists>u v. clean_name (df ! j) = u @ strip (lower q) @ v)) \<and>
          (\<exists>vec c g.
              tfidf_transform a (clean_comp (df ! i)) = Inr vec \<and> model_predict a vec = Inr c \<and>
              inverse_transform a c = Inr g \<and>
              {r \<in> set df. drug_group r = g \<and> dosage r = dosage (df ! i) \<and>
                           clean_name r \<noteq> clean_name (df ! i)} = {})"
  let ?B' = "\<exists>row rest g. matches df (lookup_key q) = row # rest \<and>
          predict_group a (clean_comp row) = Inr g \<and> alternatives df g row = []"
  have A: "?A \<longleftrightarrow> matches df (lookup_key q) = []"
    by (simp add: matches_Nil_iff lookup_key_def)
  have e: "alternatives df g row = [] \<longleftrightarrow>
      {r \<in> set df. drug_group r = g \<and> dosage r = dosage row \<and> clean_name r \<noteq> clean_name row} = {}"
    for g row
    using set_alternatives[of df g row] by (metis set_empty)
  have B: "?B \<longleftrightarrow> ?B'"
  proof
    assume ?B
    then obtain i vec c g where i: "i < length df"
      "\<exists>u v. clean_name (df ! i) = u @ strip (lower q) @ v"
      "\<forall>j<i. \<not> (\<exists>u v. clean_name (df ! j) = u @ strip (lower q) @ v)"
      and art: "tfidf_transform a (clean_comp (df ! i)) = Inr vec" "model_predict a vec = Inr c"
        "inverse_transform a c = Inr g"
      and emp: "{r \<in> set df. drug_group r = g \<and> dosage r = dosage (df ! i) \<and>
                           clean_name r \<noteq> clean_name (df ! i)} = {}"
      by blast
    from i have "\<exists>rest. matches df (lookup_key q) = df ! i # rest"
      unfolding matches_first by blast
    moreover from art have "predict_group a (clean_comp (df ! i)) = Inr g"
      unfolding predict_group_Inr by blast
    moreover from emp have "alternatives df g (df ! i) = []" by (simp only: e)
    ultimately show ?B' by blast
  next
    assume ?B'
    then obtain row rest g where m: "matches df (lookup_key q) = row # rest"
      and g: "predict_group a (clean_comp row) = Inr g" and emp: "alternatives df g row = []"
      by blast
    from m have "\<exists>rest. matches df (lookup_key q) = row # rest" by blast
    then obtain i where i: "i < length df" "row = df ! i"
      "\<exists>u v. clean_name (df ! i) = u @ strip (lower q) @ v"
      "\<forall>j<i. \<not> (\<exists>u v. clean_name (df ! j) = u @ strip (lower q) @ v)"
      unfolding matches_first by blast
    from g obtain vec c where "tfidf_transform a (clean_comp row) = Inr vec"
      "model_predict a vec = Inr c" "inverse_transform a c = Inr g"
      unfolding predict_group_Inr by blast
    moreover from emp have "{r \<in> set df. drug_group r = g \<and> dosage r = dosage row \<and>
                           clean_name r \<noteq> clean_name row} = {}" by (simp only: e)
    ultimately show ?B using i by blast
  qed
  show "recommend_alternatives a df q n = Inr None \<longleftrightarrow> ?A \<or> ?B"
    unfolding A B
  proof (cases rule: recommend_cases[of df q a n])
    case no_match
    then show "recommend_alternatives a df q n = Inr None \<longleftrightarrow>
        matches df (lookup_key q) = [] \<or> ?B'" by simp
  next
    case (failure row rest e)
    then show "recommend_alternatives a df q n = Inr None \<longleftrightarrow>
        matches df (lookup_key q) = [] \<or> ?B'" by auto
  next
    case (no_alternative row rest g)
    then show "recommend_alternatives a df q n = Inr None \<longleftrightarrow>
        matches df (lookup_key q) = [] \<or> ?B'" by auto
  next
    case (found row rest g)
    then show "recommend_alternatives a df q n = Inr None \<longleftrightarrow>
        matches df (lookup_key q) = [] \<or> ?B'" by auto
  qed
next
  have k: "lookup_key ''xyznonexistentdrug123'' = ''xyznonexistentdrug123''"
    by code_simp
  assume "\<forall>r\<in>set df. \<not> (\<exists>u v. clean_name r = u @ ''xyznonexistentdrug123'' @ v)"
  then have "matches df (lookup_key ''xyznonexistentdrug123'') = []"
    unfolding k matches_Nil_iff by blast
  then show "recommend_alternatives a df ''xyznonexistentdrug123'' 5 = Inr None"
    by (rule recommend_no_match)
qed

theorem not_found_iff_witness:
  "recommend_alternatives example_artifacts example_table ''xyznonexistentdrug123'' 5 = Inr None \<and>
   recommend_alternatives example_artifacts example_table '' PARACETAMOL 650MG '' 5 = Inr None"
proof -
  note T = not_found_iff[of example_artifacts example_table _ 5]
  have "\<forall>r\<in>set example_table. \<not> contains (clean_name r) ''xyznonexistentdrug123''"
    by code_simp
  then have h: "\<forall>r\<in>set example_table. \<not> (\<exists>u v. clean_name r = u @ ''xyznonexistentdrug123'' @ v)"
    by (simp only: contains_iff)
  from T[of "[]", THEN conjunct2] h
  have 1: "recommend_alternatives example_artifacts example_table ''xyznonexistentdrug123'' 5 = Inr None"
    by (rule mp)
  let ?k = "strip (lower '' PARACETAMOL 650MG '')"
  let ?C = "\<lambda>r. \<exists>u v. clean_name r = u @ ?k @ v"
  have "contains (clean_name (example_table ! 2)) ?k" by code_simp
  then have c2: "?C (example_table ! 2)" by (simp only: contains_iff)
  have "\<not> contains (clean_name (example_table ! 0)) ?k" by code_simp
  then have c0: "\<not> ?C (example_table ! 0)" unfolding contains_iff .
  have "\<not> contains (clean_name (example_table ! 1)) ?k" by code_simp
  then have c1: "\<not> ?C (example_table ! 1)" unfolding contains_iff .
  have least: "\<forall>j<2. \<not> ?C (example_table ! j)"
  proof (intro allI impI)
    fix j :: nat assume "j < 2"
    then have "j = 0 \<or> j = 1" by auto
    with c0 c1 show "\<not> ?C (example_table ! j)" by metis
  qed
  have len: "2 < length example_table" by (simp add: example_table_def)
  have art: "tfidf_transform example_artifacts (clean_comp (example_table ! 2)) = Inr ''paracetamol''"
    "model_predict example_artifacts ''paracetamol'' = Inr 1"
    "inverse_transform example_artifacts 1 = Inr 1"
    by code_simp+
  have "alternatives example_table 1 (example_table ! 2) = []" by code_simp
  then have "set (alternatives example_table 1 (example_table ! 2)) = {}" by simp
  then have emp: "{r \<in> set example_table. drug_group r = 1 \<and> dosage r = dosage (example_table ! 2) \<and>
                   clean_name r \<noteq> clean_name (example_table ! 2)} = {}"
    by (simp only: set_alternatives)
  from art emp have "\<exists>vec c g.
      tfidf_transform example_artifacts (clean_comp (example_table ! 2)) = Inr vec \<and>
      model_predict example_artifacts vec = Inr c \<and> inverse_transform example_artifacts c = Inr g \<and>
      {r \<in> set example_table. drug_group r = g \<and> dosage r = dosage (example_table ! 2) \<and>
                   clean_name r \<noteq> clean_name (example_table ! 2)} = {}"
    by (intro exI conjI)
  with len c2 least have B: "\<exists>i<length example_table. ?C (example_table ! i) \<and>
      (\<forall>j<i. \<not> ?C (example_table ! j)) \<and>
      (\<exists>vec c g.
      tfidf_transform example_artifacts (clean_comp (example_table ! i)) = Inr vec \<and>
      model_predict example_artifacts vec = Inr c \<and> inverse_transform example_artifacts c = Inr g \<and>
      {r \<in> set example_table. drug_group r = g \<and> dosage r = dosage (example_table ! i) \<and>
                   clean_name r \<noteq> clean_name (example_table ! i)} = {})"
    by (intro exI[of _ 2] conjI)
  from T[of "'' PARACETAMOL 650MG ''", THEN conjunct1, THEN iffD2, OF disjI2, OF B]
  have 2: "recommend_alternatives example_artifacts example_table '' PARACETAMOL 650MG '' 5 = Inr None" .
  from 1 2 show ?thesis ..
qed

lemma predict_group_failure:
  "predict_group a t = Inl e \<longleftrightarrow>
     tfidf_transform a t = Inl e \<or>
     (\<exists>vec. tfidf_transform a t = Inr vec \<and>
        (model_predict a vec = Inl e \<or>
         (\<exists>c. model_predict a vec = Inr c \<and> inverse_transform a c = Inl e)))"
  by (auto simp: predict_group_def split: sum.splits)

section \<open>Failures of the model files\<close>

text \<open>
  Claim C4, amended. Lines 81 to 83 are not guarded: \<^verbatim>\<open>recommend_alternatives\<close> ends with
  an error \<open>e\<close> exactly when a row matches the query and the vectorizer, the classifier or
  the label decoder raises \<open>e\<close> on the cleaned composition of the first such row. The error
  leaves the function; it is not turned into \<^verbatim>\<open>None\<close>.
\<close>

theorem prediction_error_leaves_recommend:
  "recommend_alternatives a df q n = Inl e \<longleftrightarrow>
     (\<exists>row rest. matches df (lookup_key q) = row # rest \<and>
        (tfidf_transform a (clean_comp row) = Inl e \<or>
         (\<exists>vec. tfidf_transform a (clean_comp row) = Inr vec \<and>
            (model_predict a vec = Inl e \<or>
             (\<exists>c. model_predict a vec = Inr c \<and> inverse_transform a c = Inl e)))))"
  unfolding predict_group_failure[symmetric]
  by (cases rule: recommend_cases[of df q a n]) auto

theorem prediction_error_counterexample:
  "recommend_alternatives failing_artifacts example_table ''crocin'' 5 = Inl PredictionError"
  by code_simp

theorem prediction_error_leaves_recommend_witness:
  "recommend_alternatives failing_artifacts example_table ''crocin'' 5 = Inl PredictionError \<longleftrightarrow>
     (\<exists>row rest. matches example_table (lookup_key ''crocin'') = row # rest \<and>
        (tfidf_transform failing_artifacts (clean_comp row) = Inl PredictionError \<or>
         (\<exists>vec. tfidf_transform failing_artifacts (clean_comp row) = Inr vec \<and>
            (model_predict failing_artifacts vec = Inl PredictionError \<or>
             (\<exists>c. model_predict failing_artifacts vec = Inr c \<and>
                  inverse_transform failing_artifacts c = Inl PredictionError)))))"
  by (rule prediction_error_leaves_recommend)

section \<open>A bound that is not positive\<close>

text \<open>
  Claim C5, amended. No value of \<open>top_n\<close> is rejected: a call with \<open>top_n \<le> 0\<close> ends in an
  error, or in \<^verbatim>\<open>None\<close>, exactly when the call with any other bound \<open>m\<close> does. When the
  call with the size of the table as bound returns the frame \<open>full\<close> (all the sorted
  candidates), the call with \<open>top_n = 0\<close> returns the empty frame, and the call with a
  negative \<open>top_n\<close> returns \<open>full\<close> without its last \<open>- top_n\<close> rows, a frame with at least
  one row as soon as \<open>full\<close> has more than \<open>- top_n\<close> rows.
\<close>

theorem nonpositive_top_n:
  assumes "n \<le> 0"
  shows "(recommend_alternatives a df q n = Inl e \<longleftrightarrow> recommend_alternatives a df q m = Inl e) \<and>
         (recommend_alternatives a df q n = Inr None \<longleftrightarrow> recommend_alternatives a df q m = Inr None) \<and>
         (recommend_alternatives a df q (int (length df)) = Inr (Some full) \<longrightarrow>
            recommend_alternatives a df q n =
              Inr (Some (if n = 0 then [] else take (length full - nat (- n)) full)) \<and>
            (n < 0 \<and> nat (- n) < length full \<longrightarrow>
               (\<exists>x xs. recommend_alternatives a df q n = Inr (Some (x # xs)))))"
proof (cases rule: recommend_cases[of df q a n])
  case no_match
  then show ?thesis by (simp add: recommend_no_match)
next
  case (failure row rest e')
  then show ?thesis by (simp add: recommend_failure)
next
  case (no_alternative row rest g)
  then show ?thesis by (simp add: recommend_group)
next
  case (found row rest g)
  let ?s = "sort_values (map select_columns (alternatives df g row))"
  have r: "recommend_alternatives a df q k = Inr (Some (head k ?s))" for k
    using recommend_group[OF found(1,2), of k] found(3) by simp
  have "length ?s \<le> length df" by (simp add: size_sort_values length_alternatives_le)
  then have all: "head (int (length df)) ?s = ?s" by (simp add: head_all)
  have cut: "head n ?s = (if n = 0 then [] else take (length ?s - nat (- n)) ?s)"
    using assms by (simp add: head_def)
  have ne: "\<exists>x xs. head n ?s = x # xs" if "n < 0 \<and> nat (- n) < length ?s"
  proof -
    from that have "length (head n ?s) = length ?s - nat (- n)" by (simp add: cut)
    with that have "head n ?s \<noteq> []" by auto
    then show ?thesis by (cases "head n ?s") auto
  qed
  show ?thesis unfolding r all using cut ne by auto
qed

theorem nonpositive_top_n_witness:
  "recommend_alternatives example_artifacts example_table ''paracetamol 500mg'' (- 2) =
     Inr (Some [select_columns (example_table ! 1)])"
proof -
  have f: "recommend_alternatives example_artifacts example_table ''paracetamol 500mg''
             (int (length example_table)) =
           Inr (Some [select_columns (example_table ! 1), select_columns (example_table ! 4),
                select_columns (example_table ! 3)])"
    by code_simp
  have z: "(- 2 :: int) \<le> 0" by simp
  from nonpositive_top_n[OF z, of example_artifacts example_table "''paracetamol 500mg''" PredictionError 0,
      THEN conjunct2, THEN conjunct2, THEN mp, OF f, THEN conjunct1]
  show ?thesis by simp
qed

theorem nonpositive_top_n_counterexample:
  "recommend_alternatives example_artifacts example_table ''paracetamol 500mg'' (- 1) =
     Inr (Some [\<lparr> alt_name = ''Crocin 500mg'', alt_clean_comp = ''paracetamol'', alt_price = Some 8 \<rparr>,
                \<lparr> alt_name = ''Dolo 500mg'', alt_clean_comp = ''paracetamol'', alt_price = Some 9 \<rparr>])"
  by code_simp

section \<open>Order and length of the result\<close>

text \<open>
  Claim C2. A returned frame has at most \<open>top_n\<close> rows (for the bounds \<open>top_n \<ge> 0\<close>, which
  include the positive ones of the interface), its known prices do not decrease from top
  to bottom, and below a row without a price every row is without a price.
\<close>
theorem result_bounded_and_sorted:
  assumes "recommend_alternatives a df q n = Inr (Some res)"
  shows "(0 \<le> n \<longrightarrow> int (length res) \<le> n) \<and>
         (\<forall>i j p p'. i < j \<and> j < length res \<and> alt_price (res ! i) = Some p \<and> alt_price (res ! j) = Some p'
             \<longrightarrow> p \<le> p') \<and>
         (\<forall>i j. i < j \<and> j < length res \<and> alt_price (res ! i) = None \<longrightarrow> alt_price (res ! j) = None)"
proof (cases rule: recommend_cases[of df q a n])
  case (found row rest g)
  let ?s = "sort_values (map select_columns (alternatives df g row))"
  from found assms have "res = head n ?s" by simp
  then obtain k where res: "res = take k ?s" using head_is_take by metis
  have 1: "0 \<le> n \<longrightarrow> int (length res) \<le> n"
    using \<open>res = head n ?s\<close> by (auto simp: head_def)
  have "sorted (map fst (known res))"
    unfolding res by (rule sorted_known_take) (rule sorted_known_sort_values)
  then have 2: "\<forall>i j p p'. i < j \<and> j < length res \<and> alt_price (res ! i) = Some p \<and> alt_price (res ! j) = Some p'
             \<longrightarrow> p \<le> p'"
    using sorted_known_nth by blast
  have 3: "\<forall>i j. i < j \<and> j < length res \<and> alt_price (res ! i) = None \<longrightarrow> alt_price (res ! j) = None"
  proof (intro allI impI)
    fix i j assume a: "i < j \<and> j < length res \<and> alt_price (res ! i) = None"
    then have "j < k" "j < length ?s" "i < k" by (simp_all add: res)
    with a have "i < j" "j < length ?s" "alt_price (?s ! i) = None" by (simp_all add: res)
    then have "alt_price (?s ! j) = None" by (rule sort_values_missing_last)
    with \<open>j < k\<close> show "alt_price (res ! j) = None" by (simp add: res)
  qed
  from 1 2 3 show ?thesis by blast
qed (use assms in simp_all)

theorem result_bounded_and_sorted_witness:
  "recommend_alternatives example_artifacts example_table ''paracetamol 500mg'' 5 =
     Inr (Some [select_columns (example_table ! 1), select_columns (example_table ! 4),
                select_columns (example_table ! 3)]) \<and>
   int (length [select_columns (example_table ! 1), select_columns (example_table ! 4),
                select_columns (example_table ! 3)]) \<le> 5"
proof -
  have h: "recommend_alternatives example_artifacts example_table ''paracetamol 500mg'' 5 =
     Inr (Some [select_columns (example_table ! 1), select_columns (example_table ! 4),
                select_columns (example_table ! 3)])"
    by code_simp
  have z: "(0::int) \<le> 5" by simp
  from result_bounded_and_sorted[OF h] have
    "0 \<le> (5::int) \<longrightarrow> int (length [select_columns (example_table ! 1), select_columns (example_table ! 4),
                select_columns (example_table ! 3)]) \<le> 5"
    by (rule conjunct1)
  with z have "int (length [select_columns (example_table ! 1), select_columns (example_table ! 4),
                select_columns (example_table ! 3)]) \<le> 5"
    by (rule rev_mp)
  with h show ?thesis by (rule conjI)
qed

section \<open>Reference row and candidates\<close>

text \<open>
  Claim C1. When some \<^verbatim>\<open>clean_name\<close> contains the query, lowercased and then stripped,
  as a literal substring, the reference row is the row of least index \<open>i\<close> whose
  \<^verbatim>\<open>clean_name\<close> does. For the label \<open>g\<close> that the vectorizer, the classifier and the label
  decoder give in turn from its \<^verbatim>\<open>clean_composition\<close>, the candidates are exactly the rows
  of the table with \<^verbatim>\<open>drug_group\<close> \<open>g\<close>, the reference's \<^verbatim>\<open>dosage\<close> and another
  \<^verbatim>\<open>clean_name\<close>: the result is made of them, every returned row is one of them, and all
  of them are returned when \<open>top_n\<close> is at least their number.
\<close>

theorem reference_and_candidates:
  assumes "\<exists>r\<in>set df. \<exists>u v. clean_name r = u @ strip (lower q) @ v"
  shows "\<exists>i<length df.
           (\<exists>u v. clean_name (df ! i) = u @ strip (lower q) @ v) \<and>
           (\<forall>j<i. \<not> (\<exists>u v. clean_name (df ! j) = u @ strip (lower q) @ v)) \<and>
           (\<forall>vec c g.
              tfidf_transform a (clean_comp (df ! i)) = Inr vec \<and> model_predict a vec = Inr c \<and>
              inverse_transform a c = Inr g \<longrightarrow>
              set (alternatives df g (df ! i)) =
                {r \<in> set df. drug_group r = g \<and> dosage r = dosage (df ! i) \<and>
                             clean_name r \<noteq> clean_name (df ! i)} \<and>
              recommend_alternatives a df q n =
                (if alternatives df g (df ! i) = [] then Inr None
                 else Inr (Some (head n (sort_values (map select_columns (alternatives df g (df ! i))))))) \<and>
              (\<forall>res. recommend_alternatives a df q n = Inr (Some res) \<longrightarrow>
                 set res \<subseteq> select_columns ` set (alternatives df g (df ! i)) \<and>
                 (int (length (alternatives df g (df ! i))) \<le> n \<longrightarrow>
                    set res = select_columns ` set (alternatives df g (df ! i)))))"
proof -
  let ?C = "\<lambda>r. \<exists>u v. clean_name r = u @ strip (lower q) @ v"
  let ?P = "\<lambda>r. contains (clean_name r) (strip (lower q))"
  from assms have "\<exists>r\<in>set df. ?P r" by (simp add: contains_iff)
  from filter_first[OF this] obtain i rest where i: "i < length df" "?P (df ! i)"
    "\<forall>j<i. \<not> ?P (df ! j)" "filter ?P df = df ! i # rest" by blast
  from i(4) have m: "matches df (lookup_key q) = df ! i # rest"
    by (simp add: matches_def lookup_key_def)
  have "set (alternatives df g (df ! i)) =
                {r \<in> set df. drug_group r = g \<and> dosage r = dosage (df ! i) \<and>
                             clean_name r \<noteq> clean_name (df ! i)} \<and>
              recommend_alternatives a df q n =
                (if alternatives df g (df ! i) = [] then Inr None
                 else Inr (Some (head n (sort_values (map select_columns (alternatives df g (df ! i))))))) \<and>
              (\<forall>res. recommend_alternatives a df q n = Inr (Some res) \<longrightarrow>
                 set res \<subseteq> select_columns ` set (alternatives df g (df ! i)) \<and>
                 (int (length (alternatives df g (df ! i))) \<le> n \<longrightarrow>
                    set res = select_columns ` set (alternatives df g (df ! i))))"
    if art: "tfidf_transform a (clean_comp (df ! i)) = Inr vec \<and> model_predict a vec = Inr c \<and>
              inverse_transform a c = Inr g" for vec c g
  proof -
    from art have g: "predict_group a (clean_comp (df ! i)) = Inr g"
      unfolding predict_group_Inr by blast
    let ?c = "alternatives df g (df ! i)"
    let ?s = "sort_values (map select_columns ?c)"
    note r = recommend_group[OF m g, of n]
    have sub: "\<forall>res. recommend_alternatives a df q n = Inr (Some res) \<longrightarrow>
                 set res \<subseteq> select_columns ` set ?c \<and>
                 (int (length ?c) \<le> n \<longrightarrow> set res = select_columns ` set ?c)"
    proof (intro allI impI)
      fix res assume "recommend_alternatives a df q n = Inr (Some res)"
      with r have res: "res = head n ?s" by (simp split: if_splits)
      have s: "set ?s = select_columns ` set ?c" by (simp add: set_sort_values)
      have 1: "set res \<subseteq> select_columns ` set ?c"
        unfolding res s[symmetric] by (rule set_head_subset)
      have "int (length ?c) \<le> n \<longrightarrow> res = ?s"
        unfolding res by (simp add: head_all size_sort_values)
      with s have 2: "int (length ?c) \<le> n \<longrightarrow> set res = select_columns ` set ?c" by auto
      from 1 2 show "set res \<subseteq> select_columns ` set ?c \<and>
                 (int (length ?c) \<le> n \<longrightarrow> set res = select_columns ` set ?c)" ..
    qed
    from r sub show ?thesis by (simp only: set_alternatives simp_thms)
  qed
  with i(1,2,3) show ?thesis unfolding contains_iff by blast
qed

theorem reference_and_candidates_witness:
  "recommend_alternatives example_artifacts example_table ''  CROCIN '' 5 =
     Inr (Some [select_columns (example_table ! 4), select_columns (example_table ! 0),
                select_columns (example_table ! 3)])"
proof -
  let ?k = "strip (lower ''  CROCIN '')"
  let ?C = "\<lambda>r. \<exists>u v. clean_name r = u @ ?k @ v"
  have "contains (clean_name (example_table ! 1)) ?k" by code_simp
  then have c1: "?C (example_table ! 1)" by (simp only: contains_iff)
  have "\<not> contains (clean_name (example_table ! 0)) ?k" by code_simp
  then have c0: "\<not> ?C (example_table ! 0)" unfolding contains_iff .
  have "example_table ! 1 \<in> set example_table" by (simp add: example_table_def)
  with c1 have h: "\<exists>r\<in>set example_table. ?C r" by blast
  let ?Q = "\<lambda>i g. set (alternatives example_table g (example_table ! i)) =
                {r \<in> set example_table. drug_group r = g \<and> dosage r = dosage (example_table ! i) \<and>
                             clean_name r \<noteq> clean_name (example_table ! i)} \<and>
              recommend_alternatives example_artifacts example_table ''  CROCIN '' 5 =
                (if alternatives example_table g (example_table ! i) = [] then Inr None
                 else Inr (Some (head 5 (sort_values (map select_columns
                        (alternatives example_table g (example_table ! i))))))) \<and>
              (\<forall>res. recommend_alternatives example_artifacts example_table ''  CROCIN '' 5 = Inr (Some res) \<longrightarrow>
                 set res \<subseteq> select_columns ` set (alternatives example_table g (example_table ! i)) \<and>
                 (int (length (alternatives example_table g (example_table ! i))) \<le> 5 \<longrightarrow>
                    set res = select_columns ` set (alternatives example_table g (example_table ! i))))"
  from reference_and_candidates[OF h, where a = example_artifacts and n = 5]
  obtain i where T: "i < length example_table \<and> ?C (example_table ! i) \<and>
      (\<forall>j<i. \<not> ?C (example_table ! j)) \<and>
      (\<forall>vec c g.
              tfidf_transform example_artifacts (clean_comp (example_table ! i)) = Inr vec \<and>
              model_predict example_artifacts vec = Inr c \<and>
              inverse_transform example_artifacts c = Inr g \<longrightarrow> ?Q i g)" ..
  note ci = T[THEN conjunct2, THEN conjunct1]
  note least = T[THEN conjunct2, THEN conjunct2, THEN conjunct1]
  note r = T[THEN conjunct2, THEN conjunct2, THEN conjunct2]
  have "\<not> 1 < i"
  proof
    assume "1 < i"
    from least[rule_format, OF this] have "\<not> ?C (example_table ! 1)" .
    then show False using c1 by (rule notE)
  qed
  moreover have "i \<noteq> 0"
  proof
    assume "i = 0"
    with ci have "?C (example_table ! 0)" by (simp only:)
    with c0 show False ..
  qed
  ultimately have i1: "i = 1" by simp
  have art: "tfidf_transform example_artifacts (clean_comp (example_table ! 1)) = Inr ''paracetamol'' \<and>
             model_predict example_artifacts ''paracetamol'' = Inr 1 \<and>
             inverse_transform example_artifacts 1 = Inr 1"
    by code_simp
  have v: "(if alternatives example_table 1 (example_table ! 1) = [] then Inr None
            else Inr (Some (head 5 (sort_values (map select_columns
                   (alternatives example_table 1 (example_table ! 1))))))) =
           (Inr (Some [select_columns (example_table ! 4), select_columns (example_table ! 0),
                select_columns (example_table ! 3)]) :: error + nat alternative list option)"
    by code_simp
  from r[unfolded i1, rule_format, OF art]
  have "recommend_alternatives example_artifacts example_table ''  CROCIN '' 5 =
                (if alternatives example_table 1 (example_table ! 1) = [] then Inr None
                 else Inr (Some (head 5 (sort_values (map select_columns
                        (alternatives example_table 1 (example_table ! 1)))))))"
    by (elim conjE)
  then show ?thesis unfolding v .
qed

section \<open>Properties of the load\<close>

lemma sequence_map_Inr:
  "sequence (map f xs) = Inr ys \<Longrightarrow>
   length ys = length xs \<and> (\<forall>i<length xs. f (xs ! i) = Inr (ys ! i))"
proof (induction xs arbitrary: ys)
  case Nil
  then show ?case by simp
next
  case (Cons x xs)
  from Cons.prems obtain v vs where v: "f x = Inr v" and vs: "sequence (map f xs) = Inr vs"
    and ys: "ys = v # vs"
    by (auto split: sum.splits)
  from Cons.IH[OF vs] have "length vs = length xs" "\<forall>i<length xs. f (xs ! i) = Inr (vs ! i)"
    by simp_all
  with v ys show ?case by (auto simp: nth_Cons split: nat.splits)
qed

lemma isl_sequence: "isl (sequence xs) \<longleftrightarrow> (\<exists>x\<in>set xs. isl x)"
  by (induction xs) (auto split: sum.splits)

lemma isl_build: "isl (build num cats r) \<longleftrightarrow> raw_name r = None"
  by (simp add: build_def split: option.splits)

lemma isl_load_dataset:
  "isl (load_dataset num rows) \<longleftrightarrow> (\<exists>r\<in>set (kept_rows rows). raw_name r = None)"
  by (simp add: load_dataset_def Let_def isl_sequence isl_build)

lemma build_Inr:
  assumes "build num cats r = Inr m"
  shows "raw_name r = Some (name m)" and "price m = to_numeric num (raw_price r)"
    and "composition m = composition_of r"
    and "clean_comp m = clean_composition (Some (composition_of r))"
    and "clean_name m = strip (lower (name m))" and "dosage m = extract_dosage (name m)"
  using assms by (auto simp: build_def split: option.splits)

lemma load_dataset_rows:
  assumes "load_dataset num rows = Inr df"
  shows "length df = length (kept_rows rows)"
    and "i < length df \<Longrightarrow> \<exists>cats. build num cats (kept_rows rows ! i) = Inr (df ! i)"
proof -
  let ?cats = "categories (map (\<lambda>r. clean_composition (Some (composition_of r))) (kept_rows rows))"
  from assms have "sequence (map (build num ?cats) (kept_rows rows)) = Inr df"
    by (simp add: load_dataset_def Let_def)
  from sequence_map_Inr[OF this]
  show "length df = length (kept_rows rows)"
    and "i < length df \<Longrightarrow> \<exists>cats. build num cats (kept_rows rows ! i) = Inr (df ! i)"
    by auto
qed

lemma clean_composition_kept: "r \<in> set (kept_rows rows) \<Longrightarrow> clean_composition (Some (composition_of r)) \<noteq> []"
  by (simp add: kept_rows_def)

lemma both_absent_dropped:
  assumes "short_composition1 r = None" and "short_composition2 r = None"
  shows "kept_rows (xs @ r # ys) = kept_rows (xs @ ys)"
proof -
  from assms have "composition_of r = '' ''" by (simp add: composition_of_def fillna_def)
  moreover have "clean_composition (Some '' '') = []" by code_simp
  ultimately show ?thesis by (simp add: kept_rows_def)
qed

section \<open>Prices that are not numbers\<close>

text \<open>
  Claim C7, amended. The price cells never fail the load: it fails only for a kept row
  without a name. When it succeeds the table has one row per kept row of the file, in
  order, and for a kept row whose price cell is absent or is not a number the price of
  its row is the float \<^verbatim>\<open>NaN\<close> of the price column (\<open>None\<close> here), which is no number and so
  not zero. It is no separate marker either: the row is returned with it, and the page
  prints it as \<^verbatim>\<open>nan\<close> where a price stands.
\<close>

theorem unparseable_price_is_nan:
  "(isl (load_dataset num rows) \<longleftrightarrow> (\<exists>r\<in>set (kept_rows rows). raw_name r = None)) \<and>
   (load_dataset num rows = Inr df \<longrightarrow>
      length df = length (kept_rows rows) \<and>
      (\<forall>i<length df.
          raw_name (kept_rows rows ! i) = Some (name (df ! i)) \<and>
          (raw_price (kept_rows rows ! i) = None \<or>
           (\<exists>t. raw_price (kept_rows rows ! i) = Some t \<and> num t = None)
           \<longrightarrow> price (df ! i) = None \<and>
               alt_price (select_columns (df ! i)) = None \<and>
               price_text fmt (alt_price (select_columns (df ! i))) = ''nan'')))"
proof (intro conjI impI allI)
  show "isl (load_dataset num rows) \<longleftrightarrow> (\<exists>r\<in>set (kept_rows rows). raw_name r = None)"
    by (rule isl_load_dataset)
next
  assume l: "load_dataset num rows = Inr df"
  then show "length df = length (kept_rows rows)" by (rule load_dataset_rows)
  fix i assume i: "i < length df"
  from load_dataset_rows(2)[OF l i] obtain cats
    where b: "build num cats (kept_rows rows ! i) = Inr (df ! i)" ..
  from build_Inr(1)[OF b] show "raw_name (kept_rows rows ! i) = Some (name (df ! i))" .
  assume "raw_price (kept_rows rows ! i) = None \<or>
           (\<exists>t. raw_price (kept_rows rows ! i) = Some t \<and> num t = None)"
  then have "to_numeric num (raw_price (kept_rows rows ! i)) = None"
    by (auto simp: to_numeric_def)
  with build_Inr(2)[OF b] show p: "price (df ! i) = None" by simp
  then show "alt_price (select_columns (df ! i)) = None" by (simp add: select_columns_def)
  from p show "price_text fmt (alt_price (select_columns (df ! i))) = ''nan''"
    by (simp add: select_columns_def price_text_def)
qed

theorem unparseable_price_is_nan_witness:
  "load_dataset example_num example_rows = Inr example_table \<and>
   raw_price (kept_rows example_rows ! 3) = Some ''N/A'' \<and> example_num ''N/A'' = None \<and>
   price (example_table ! 3) = None \<and>
   price_text show_nat (alt_price (select_columns (example_table ! 3))) = ''nan''"
proof -
  have l: "load_dataset example_num example_rows = Inr example_table" by code_simp
  have c: "raw_price (kept_rows example_rows ! 3) = Some ''N/A''" by code_simp
  have n: "example_num ''N/A'' = None" by code_simp
  have i: "3 < length example_table" by (simp add: example_table_def)
  from c n have d: "raw_price (kept_rows example_rows ! 3) = None \<or>
     (\<exists>t. raw_price (kept_rows example_rows ! 3) = Some t \<and> example_num t = None)" by blast
  from unparseable_price_is_nan[of example_num example_rows example_table show_nat,
      THEN conjunct2, THEN mp, OF l, THEN conjunct2, rule_format, OF i, THEN conjunct2, THEN mp, OF d]
  have "price (example_table ! 3) = None \<and>
        alt_price (select_columns (example_table ! 3)) = None \<and>
        price_text show_nat (alt_price (select_columns (example_table ! 3))) = ''nan''" .
  with l c n show ?thesis by blast
qed

theorem nan_price_counterexample:
  "load_dataset example_num example_rows = Inr example_table \<and>
   raw_price (kept_rows example_rows ! 3) = Some ''N/A'' \<and>
   price (example_table ! 3) = None \<and>
   map_sum id (map_option (price_column show_nat))
     (recommend_alternatives example_artifacts example_table ''paracetamol 500mg'' 5) =
     Inr (Some [''8'', ''9'', ''nan''])"
  by code_simp

section \<open>Rows without a composition\<close>

text \<open>
  Claim C8. In a loaded table every row's \<^verbatim>\<open>clean_composition\<close> is the cleaning of its
  \<^verbatim>\<open>composition\<close> and is not empty. A row of the file whose two composition cells are both
  absent leaves no trace: the load without it gives the same table. The rows returned by
  \<^verbatim>\<open>recommend_alternatives\<close> on a loaded table have a non-empty \<^verbatim>\<open>clean_composition\<close> too.
\<close>

theorem loaded_rows_have_composition:
  assumes "load_dataset num rows = Inr df"
  shows "(\<forall>m\<in>set df. clean_comp m = clean_composition (Some (composition m)) \<and> clean_comp m \<noteq> []) \<and>
         (\<forall>xs r ys. rows = xs @ r # ys \<and> short_composition1 r = None \<and> short_composition2 r = None
             \<longrightarrow> load_dataset num (xs @ ys) = Inr df) \<and>
         (\<forall>(a :: ('v, 'c) artifacts) q n res. recommend_alternatives a df q n = Inr (Some res)
             \<longrightarrow> (\<forall>x\<in>set res. alt_clean_comp x \<noteq> []))"
proof -
  have 1: "\<forall>m\<in>set df. clean_comp m = clean_composition (Some (composition m)) \<and> clean_comp m \<noteq> []"
  proof
    fix m assume "m \<in> set df"
    then obtain i where i: "i < length df" "m = df ! i" by (auto simp: in_set_conv_nth)
    from load_dataset_rows(2)[OF assms i(1)] i(2) obtain cats
      where b: "build num cats (kept_rows rows ! i) = Inr m" by auto
    from i(1) have "kept_rows rows ! i \<in> set (kept_rows rows)"
      by (simp add: load_dataset_rows(1)[OF assms])
    then have "clean_composition (Some (composition_of (kept_rows rows ! i))) \<noteq> []"
      by (rule clean_composition_kept)
    with build_Inr(3,4)[OF b]
    show "clean_comp m = clean_composition (Some (composition m)) \<and> clean_comp m \<noteq> []" by simp
  qed
  have 2: "\<forall>xs r ys. rows = xs @ r # ys \<and> short_composition1 r = None \<and> short_composition2 r = None
             \<longrightarrow> load_dataset num (xs @ ys) = Inr df"
  proof (intro allI impI)
    fix xs r ys
    assume a: "rows = xs @ r # ys \<and> short_composition1 r = None \<and> short_composition2 r = None"
    then have "kept_rows rows = kept_rows (xs @ ys)" by (simp add: both_absent_dropped)
    then have "load_dataset num (xs @ ys) = load_dataset num rows" by (simp add: load_dataset_def)
    with assms show "load_dataset num (xs @ ys) = Inr df" by simp
  qed
  have 3: "\<forall>x\<in>set res. alt_clean_comp x \<noteq> []"
    if r: "recommend_alternatives a df q n = Inr (Some res)"
    for a :: "('v, 'c) artifacts" and q n res
  proof (cases rule: recommend_cases[of df q a n])
    case (found row rest g)
    with r have "res = head n (sort_values (map select_columns (alternatives df g row)))" by simp
    then have "set res \<subseteq> select_columns ` set (alternatives df g row)"
      using set_head_subset[of n "sort_values (map select_columns (alternatives df g row))"]
      by (simp add: set_sort_values)
    also have "\<dots> \<subseteq> select_columns ` set df" by (auto simp: set_alternatives)
    finally have "set res \<subseteq> select_columns ` set df" .
    moreover from 1 have "\<forall>m\<in>set df. clean_comp m \<noteq> []" by blast
    then have "\<forall>m\<in>set df. alt_clean_comp (select_columns m) \<noteq> []"
      by (simp add: select_columns_def)
    ultimately show ?thesis by blast
  qed (use r in simp_all)
  from 1 2 3 show ?thesis by blast
qed

theorem loaded_rows_have_composition_witness:
  "load_dataset example_num example_rows = Inr example_table \<and>
   clean_comp (example_table ! 0) \<noteq> [] \<and>
   load_dataset example_num (take 3 example_rows @ drop 4 example_rows) = Inr example_table"
proof -
  have l: "load_dataset example_num example_rows = Inr example_table" by code_simp
  note t = loaded_rows_have_composition[OF l, where 'v = unit and 'c = unit]
  have "example_table ! 0 \<in> set example_table" by (simp add: example_table_def)
  with t have 1: "clean_comp (example_table ! 0) \<noteq> []" by blast
  have "example_rows = take 3 example_rows @ example_rows ! 3 # drop 4 example_rows"
    "short_composition1 (example_rows ! 3) = None" "short_composition2 (example_rows ! 3) = None"
    by (simp_all add: example_rows_def)
  with t have 2: "load_dataset example_num (take 3 example_rows @ drop 4 example_rows) = Inr example_table"
    by blast
  from l 1 2 show ?thesis by blast
qed

section \<open>The composition cleaner against its specification\<close>

lemma trim_leading_dropWhile: "trim_leading s = dropWhile is_space s"
  by (induction s) simp_all

lemma trim_strip: "trim s = strip s"
  by (simp add: trim_def strip_def trim_leading_dropWhile)

lemma replace_brackets_sub_punct: "replace_brackets s = sub_punct s"
  by (simp add: replace_brackets_def sub_punct_def is_punct_def)

lemma sub_spaces_space:
  "is_space c \<Longrightarrow> sub_spaces (c # cs) = CHR '' '' # sub_spaces (dropWhile is_space cs)"
  by simp

lemma collapse_runs_sub_spaces: "collapse_runs s = sub_spaces s"
proof (induction s rule: collapse_runs.induct)
  case 1
  show ?case by simp
next
  case (2 c)
  show ?case by simp
next
  case (3 c d cs)
  show ?case
  proof (cases "is_space c \<and> is_space d")
    case True
    with 3 have "collapse_runs (c # d # cs) = sub_spaces (d # cs)" by simp
    also from True have "\<dots> = CHR '' '' # sub_spaces (dropWhile is_space cs)" by simp
    also from True have "\<dots> = sub_spaces (c # d # cs)" by simp
    finally show ?thesis .
  next
    case False
    with 3 show ?thesis by auto
  qed
qed

text \<open>
  Claim C9. \<^verbatim>\<open>clean_composition\<close> returns the empty string for an absent input, and for a
  text the text lowercased, with each of \<^verbatim>\<open>( ) [ ] ,\<close> replaced by a space, runs of
  whitespace collapsed to one space, and trimmed: it is the normalizer of the
  specification.
\<close>

theorem clean_composition_normalizes:
  "clean_composition None = [] \<and>
   clean_composition (Some s) = trim (collapse_runs (replace_brackets (lower s))) \<and>
   clean_composition t = normalize_composition t"
proof -
  have "clean_composition (Some s) = trim (collapse_runs (replace_brackets (lower s)))" for s
    by (simp add: trim_strip collapse_runs_sub_spaces replace_brackets_sub_punct)
  then show ?thesis
    by (cases t) (simp_all add: normalize_composition_def lower_def)
qed

theorem clean_composition_normalizes_witness:
  "clean_composition (Some ''  Ambroxol (30mg),   Levosalbutamol [1MG] '') = ''ambroxol 30mg levosalbutamol 1mg''"
proof -
  have "normalize_composition (Some ''  Ambroxol (30mg),   Levosalbutamol [1MG] '') = ''ambroxol 30mg levosalbutamol 1mg''"
    by code_simp
  with clean_composition_normalizes[of "[]" "Some ''  Ambroxol (30mg),   Levosalbutamol [1MG] ''"]
  show ?thesis by simp
qed

section \<open>The dosage key\<close>

lemma space_not_digit: "is_space c \<Longrightarrow> \<not> is_digit c"
  by (auto simp: is_space_def is_digit_def Let_def)

lemma unit_cases: "u \<in> set units \<longleftrightarrow> u = ''mg'' \<or> u = ''ml'' \<or> u = ''mcg''"
  by (auto simp: units_def)

lemma unit_head: "u \<in> set units \<Longrightarrow> \<exists>v. u = CHR ''m'' # v"
  by (auto simp: unit_cases)

lemma unit_chars: "u \<in> set units \<Longrightarrow> c \<in> set u \<Longrightarrow> \<not> is_digit c \<and> \<not> is_space c"
  by (auto simp: unit_cases is_digit_def is_space_def)

lemma find_unit: "u \<in> set units \<Longrightarrow> find (startswith (u @ t)) units = Some u"
  by (auto simp: unit_cases units_def)

lemma takeWhile_run:
  "\<forall>c\<in>set xs. P c \<Longrightarrow> ys = [] \<or> \<not> P (hd ys) \<Longrightarrow> takeWhile P (xs @ ys) = xs"
  by (cases ys) (simp_all add: takeWhile_append2)

lemma dropWhile_run:
  "\<forall>c\<in>set xs. P c \<Longrightarrow> ys = [] \<or> \<not> P (hd ys) \<Longrightarrow> dropWhile P (xs @ ys) = ys"
  by (cases ys) (simp_all add: dropWhile_append2)

lemma match_at_complete:
  assumes "ds \<noteq> []" and "\<forall>c\<in>set ds. is_digit c" and "\<forall>c\<in>set ws. is_space c" and "u \<in> set units"
  shows "match_at (ds @ ws @ u @ t) = Some (ds @ ws @ u, t)"
proof -
  from assms(4) obtain v where u: "u = CHR ''m'' # v" using unit_head by blast
  have m: "\<not> is_digit CHR ''m''" "\<not> is_space CHR ''m''" by (simp_all add: is_digit_def is_space_def)
  have nd: "ws @ u @ t = [] \<or> \<not> is_digit (hd (ws @ u @ t))"
    using assms(3) m u by (cases ws) (auto simp: space_not_digit)
  have 1: "takeWhile is_digit (ds @ ws @ u @ t) = ds"
    by (rule takeWhile_run[OF assms(2) nd])
  have 2: "dropWhile is_digit (ds @ ws @ u @ t) = ws @ u @ t"
    by (rule dropWhile_run[OF assms(2) nd])
  have ns: "u @ t = [] \<or> \<not> is_space (hd (u @ t))" using m u by simp
  have 3: "takeWhile is_space (ws @ u @ t) = ws"
    by (rule takeWhile_run[OF assms(3) ns])
  have 4: "dropWhile is_space (ws @ u @ t) = u @ t"
    by (rule dropWhile_run[OF assms(3) ns])
  show ?thesis
    unfolding match_at_def Let_def 1 2 3 4 using assms(1,4) by (simp add: find_unit)
qed

lemma match_at_no_digit: "s = [] \<or> \<not> is_digit (hd s) \<Longrightarrow> match_at s = None"
  by (cases s) (auto simp: match_at_def)

lemma match_at_SomeD:
  assumes "match_at s = Some (m, r)"
  shows "s = m @ r" and "m \<noteq> []"
proof -
  let ?ds = "takeWhile is_digit s" and ?r1 = "dropWhile is_digit s"
  let ?ws = "takeWhile is_space ?r1" and ?r2 = "dropWhile is_space ?r1"
  from assms obtain u where ds: "?ds \<noteq> []" and f: "find (startswith ?r2) units = Some u"
    and m: "m = ?ds @ ?ws @ u" and r: "r = drop (length u) ?r2"
    unfolding match_at_def Let_def by (auto split: if_splits option.splits)
  from f have "startswith ?r2 u" by (auto simp: find_Some_iff)
  then obtain v where v: "?r2 = u @ v" by (auto simp: startswith_iff)
  with r have "r = v" by simp
  have "s = ?ds @ ?r1" by simp
  also have "?r1 = ?ws @ ?r2" by simp
  finally have "s = ?ds @ ?ws @ ?r2" .
  with v m \<open>r = v\<close> show "s = m @ r" by simp
  from ds m show "m \<noteq> []" by simp
qed

lemma startswith_extend:
  assumes "u \<in> set units" and "ys \<noteq> []" and "is_digit (hd ys)" and "xs \<noteq> []"
  shows "startswith (xs @ ys) u \<longleftrightarrow> startswith xs u"
proof
  assume "startswith xs u"
  then show "startswith (xs @ ys) u" by (auto simp: startswith_iff)
next
  assume "startswith (xs @ ys) u"
  then obtain v where v: "xs @ ys = u @ v" by (auto simp: startswith_iff)
  then consider w where "u = xs @ w" "ys = w @ v" | w where "xs = u @ w"
    by (auto simp: append_eq_append_conv2)
  then show "startswith xs u"
  proof cases
    case 1
    show ?thesis
    proof (cases w)
      case Nil
      with 1 show ?thesis by (simp add: startswith_iff)
    next
      case (Cons a w')
      with 1 assms(3) have "is_digit a" "a \<in> set u" by simp_all
      with unit_chars[OF assms(1)] show ?thesis by blast
    qed
  next
    case 2
    then show ?thesis by (simp add: startswith_iff)
  qed
qed

lemma startswith_unit_digit:
  "u \<in> set units \<Longrightarrow> ys = [] \<or> is_digit (hd ys) \<Longrightarrow> \<not> startswith ys u"
  by (cases ys) (auto simp: unit_cases is_digit_def)

lemma find_cong_set: "(\<And>x. x \<in> set xs \<Longrightarrow> P x = Q x) \<Longrightarrow> find P xs = find Q xs"
  by (induction xs) auto

lemma find_none: "(\<And>x. x \<in> set xs \<Longrightarrow> \<not> P x) \<Longrightarrow> find P xs = None"
  by (induction xs) auto

lemma match_at_extend:
  assumes "s \<noteq> []" and "\<not> is_digit (last s)" and "ys \<noteq> []" and "is_digit (hd ys)"
  shows "match_at (s @ ys) = map_option (\<lambda>(m, r). (m, r @ ys)) (match_at s)"
proof -
  let ?ds = "takeWhile is_digit s" and ?r1 = "dropWhile is_digit s"
  let ?ws = "takeWhile is_space ?r1" and ?r2 = "dropWhile is_space ?r1"
  from assms(1,2) have nd: "last s \<in> set s" "\<not> is_digit (last s)" by simp_all
  then have 1: "takeWhile is_digit (s @ ys) = ?ds" and 2: "dropWhile is_digit (s @ ys) = ?r1 @ ys"
    by (simp_all add: takeWhile_append1 dropWhile_append1)
  from nd have r1: "?r1 \<noteq> []" by (auto simp: dropWhile_eq_Nil_conv)
  from assms(4) have ysp: "\<not> is_space (hd ys)" using space_not_digit by blast
  show ?thesis
  proof (cases "\<forall>c\<in>set ?r1. is_space c")
    case True
    from ysp have "ys = [] \<or> \<not> is_space (hd ys)" by simp
    from dropWhile_run[OF True this] have 3: "dropWhile is_space (?r1 @ ys) = ys" .
    from True have 4: "?r2 = []" by simp
    have "find (startswith ys) units = None"
      using assms(3,4) by (intro find_none) (simp add: startswith_unit_digit)
    moreover have "find (startswith []) units = None"
      by (intro find_none) (simp add: startswith_unit_digit)
    ultimately show ?thesis
      unfolding match_at_def Let_def 1 2 3 4 by simp
  next
    case False
    then obtain x where x: "x \<in> set ?r1" "\<not> is_space x" by blast
    then have 3: "takeWhile is_space (?r1 @ ys) = ?ws" and 4: "dropWhile is_space (?r1 @ ys) = ?r2 @ ys"
      by (simp_all add: takeWhile_append1 dropWhile_append1)
    from x have r2: "?r2 \<noteq> []" by (auto simp: dropWhile_eq_Nil_conv)
    have f: "find (startswith (?r2 @ ys)) units = find (startswith ?r2) units"
      using assms(3,4) r2 by (intro find_cong_set) (simp add: startswith_extend)
    have d: "drop (length u) (?r2 @ ys) = drop (length u) ?r2 @ ys"
      if "find (startswith ?r2) units = Some u" for u
    proof -
      from that have "startswith ?r2 u" by (auto simp: find_Some_iff)
      then obtain v where "?r2 = u @ v" by (auto simp: startswith_iff)
      then have "length u \<le> length ?r2" by (metis length_append le_add1)
      then show ?thesis by simp
    qed
    show ?thesis
    proof (cases "find (startswith ?r2) units")
      case None
      then show ?thesis unfolding match_at_def Let_def 1 2 3 4 f by simp
    next
      case (Some u)
      then show ?thesis unfolding match_at_def Let_def 1 2 3 4 f by (simp add: d[OF Some] del: drop_append)
    qed
  qed
qed

lemma findall_extend:
  assumes "ys \<noteq> []" and "is_digit (hd ys)"
  shows "s = [] \<or> \<not> is_digit (last s) \<Longrightarrow> findall (s @ ys) = findall s @ findall ys"
proof (induction s rule: findall.induct)
  case 1
  show ?case by simp
next
  case (2 c cs)
  from "2.prems" have nd: "\<not> is_digit (last (c # cs))" by simp
  have ext: "match_at ((c # cs) @ ys) = map_option (\<lambda>(m, r). (m, r @ ys)) (match_at (c # cs))"
    by (rule match_at_extend[OF _ nd assms]) simp
  show ?case
  proof (cases "match_at (c # cs)")
    case None
    from nd have "cs = [] \<or> \<not> is_digit (last cs)" by (cases cs) simp_all
    from "2.IH"(1)[OF None this] have "findall (cs @ ys) = findall cs @ findall ys" .
    moreover from None ext have "match_at (c # cs @ ys) = None" by simp
    ultimately show ?thesis using None by (simp del: match_at_def)
  next
    case (Some x)
    obtain m r where x: "x = (m, r)" by (cases x)
    from match_at_SomeD(1)[OF Some[unfolded x]] have "c # cs = m @ r" .
    have "r = [] \<or> \<not> is_digit (last r)"
    proof (cases "r = []")
      case True
      then show ?thesis by simp
    next
      case False
      then have "last (m @ r) = last r" by simp
      with \<open>c # cs = m @ r\<close> nd show ?thesis by metis
    qed
    from "2.IH"(2)[OF Some x[symmetric] \<open>r = [] \<or> \<not> is_digit (last r)\<close>] have "findall (r @ ys) = findall r @ findall ys" .
    moreover from Some x ext have "match_at (c # cs @ ys) = Some (m, r @ ys)" by simp
    ultimately show ?thesis using Some x by simp
  qed
qed

lemma findall_token:
  assumes "ds \<noteq> []" and "\<forall>c\<in>set ds. is_digit c" and "\<forall>c\<in>set ws. is_space c" and "u \<in> set units"
  shows "findall (ds @ ws @ u @ t) = (ds @ ws @ u) # findall t"
proof -
  from assms(1) obtain d ds' where ds: "ds = d # ds'" by (cases ds) auto
  from match_at_complete[OF assms, of t] have "match_at (d # ds' @ ws @ u @ t) = Some (ds @ ws @ u, t)"
    by (simp add: ds)
  then show ?thesis by (simp add: ds)
qed

lemma findall_name:
  assumes "p = [] \<or> \<not> is_digit (last p)"
    and "ds \<noteq> []" and "\<forall>c\<in>set ds. is_digit c" and "\<forall>c\<in>set ws. is_space c" and "u \<in> set units"
  shows "findall (p @ ds @ ws @ u @ t) = findall p @ (ds @ ws @ u) # findall t"
proof -
  from assms(2,3) have "ds @ ws @ u @ t \<noteq> []" "is_digit (hd (ds @ ws @ u @ t))"
    by (cases ds; simp)+
  from findall_extend[OF this assms(1)] show ?thesis
    by (simp add: findall_token[OF assms(2-5)])
qed

lemma split_trailing_digits:
  "\<exists>p' dd. p = p' @ dd \<and> (\<forall>c\<in>set dd. is_digit c) \<and> (p' = [] \<or> \<not> is_digit (last p'))"
proof -
  let ?p' = "rev (dropWhile is_digit (rev p))" and ?dd = "rev (takeWhile is_digit (rev p))"
  have "rev p = takeWhile is_digit (rev p) @ dropWhile is_digit (rev p)" by simp
  then have "rev (rev p) = ?p' @ ?dd" by (metis rev_append)
  then have 1: "p = ?p' @ ?dd" by simp
  have 2: "\<forall>c\<in>set ?dd. is_digit c" by (auto dest: set_takeWhileD)
  have 3: "?p' = [] \<or> \<not> is_digit (last ?p')"
    by (cases "dropWhile is_digit (rev p) = []") (simp_all add: last_rev hd_dropWhile)
  from 1 2 3 show ?thesis by blast
qed

lemma lower_append: "lower (xs @ ys) = lower xs @ lower ys"
  by (simp add: lower_def)

lemma lower_digits: "\<forall>c\<in>set ds. is_digit c \<Longrightarrow> lower ds = ds"
  by (induction ds) (auto simp: lower_def lower_char_def is_digit_def Let_def)

lemma lower_spaces: "\<forall>c\<in>set ws. is_space c \<Longrightarrow> lower ws = ws"
  by (induction ws) (auto simp: lower_def lower_char_def is_space_def Let_def)

lemma join_Cons: "join sep (x # xs) = x @ (if xs = [] then [] else sep @ join sep xs)"
  by (cases xs) simp_all

lemma join_middle:
  "join sep (xs @ x # ys) =
     (if xs = [] then [] else join sep xs @ sep) @ x @ (if ys = [] then [] else sep @ join sep ys)"
proof (induction xs)
  case Nil
  show ?case by (simp add: join_Cons)
next
  case (Cons a xs)
  have "join sep ((a # xs) @ x # ys) = a @ sep @ join sep (xs @ x # ys)"
    by (simp add: join_Cons)
  also have "\<dots> = (join sep (a # xs) @ sep) @ x @ (if ys = [] then [] else sep @ join sep ys)"
    unfolding Cons.IH by (simp add: join_Cons)
  finally show ?case by simp
qed

text \<open>
  Claim C6, amended. \<^verbatim>\<open>extract_dosage\<close> finds a number and its unit whether or not
  whitespace stands between them, but each item of the key is the matched text as it
  stands, whitespace included. For two names that differ only in the whitespace \<open>ws\<close>,
  \<open>ws'\<close> between a number \<open>ds\<close> and its unit \<open>u\<close>, the keys are byte-identical exactly
  when \<open>ws = ws'\<close>; when the number starts a run of digits, the key is the items of the
  text before it, then \<open>ds @ ws @ lower u\<close>, then the items of the text after it.
\<close>

theorem dosage_key_keeps_spacing:
  assumes "ds \<noteq> []" and "\<forall>c\<in>set ds. is_digit c"
    and "\<forall>c\<in>set ws. is_space c" and "\<forall>c\<in>set ws'. is_space c"
    and "lower u \<in> set units"
  shows "(extract_dosage (p @ ds @ ws @ u @ t) = extract_dosage (p @ ds @ ws' @ u @ t) \<longleftrightarrow> ws = ws') \<and>
         (p = [] \<or> \<not> is_digit (last p) \<longrightarrow>
            extract_dosage (p @ ds @ ws @ u @ t) =
              join '' '' (findall (lower p) @ (ds @ ws @ lower u) # findall (lower t)))"
proof -
  have low: "lower (p @ ds @ w @ u @ t) = lower p @ ds @ w @ lower u @ lower t"
    if "\<forall>c\<in>set w. is_space c" for w
    using that assms(2) by (simp add: lower_append lower_digits lower_spaces)
  obtain p' dd where p: "lower p = p' @ dd" and dd: "\<forall>c\<in>set dd. is_digit c"
    and p': "p' = [] \<or> \<not> is_digit (last p')"
    using split_trailing_digits by blast
  from assms(1,2) dd have d: "dd @ ds \<noteq> []" "\<forall>c\<in>set (dd @ ds). is_digit c" by auto
  have key: "extract_dosage (p @ ds @ w @ u @ t) =
      (if findall p' = [] then [] else join '' '' (findall p') @ '' '') @ ((dd @ ds) @ w @ lower u) @
      (if findall (lower t) = [] then [] else '' '' @ join '' '' (findall (lower t)))"
    if w: "\<forall>c\<in>set w. is_space c" for w
  proof -
    have "findall (p' @ (dd @ ds) @ w @ lower u @ lower t) =
          findall p' @ ((dd @ ds) @ w @ lower u) # findall (lower t)"
      by (rule findall_name[OF p' d w assms(5)])
    then show ?thesis
      unfolding extract_dosage_def low[OF w] p by (simp add: join_middle)
  qed
  have 1: "extract_dosage (p @ ds @ ws @ u @ t) = extract_dosage (p @ ds @ ws' @ u @ t) \<longleftrightarrow> ws = ws'"
    unfolding key[OF assms(3)] key[OF assms(4)] by simp
  have 2: "extract_dosage (p @ ds @ ws @ u @ t) =
              join '' '' (findall (lower p) @ (ds @ ws @ lower u) # findall (lower t))"
    if "p = [] \<or> \<not> is_digit (last p)"
  proof -
    from that have "lower p = [] \<or> \<not> is_digit (last (lower p))"
      by (cases "p = []") (simp_all add: lower_def last_map is_digit_lower_char)
    from findall_name[OF this assms(1,2,3,5)] show ?thesis
      unfolding extract_dosage_def low[OF assms(3)] by simp
  qed
  from 1 2 show ?thesis by blast
qed

theorem dosage_key_keeps_spacing_witness:
  "extract_dosage ''Calpol 250 MG Syrup'' \<noteq> extract_dosage ''Calpol 250MG Syrup''"
proof -
  have h: "''250'' \<noteq> []" "\<forall>c\<in>set ''250''. is_digit c" "\<forall>c\<in>set '' ''. is_space c"
    "\<forall>c\<in>set []. is_space c" "lower ''MG'' \<in> set units"
    by code_simp+
  from dosage_key_keeps_spacing[OF h, of "''Calpol ''" "'' Syrup''"]
  have "extract_dosage (''Calpol '' @ ''250'' @ '' '' @ ''MG'' @ '' Syrup'') \<noteq>
        extract_dosage (''Calpol '' @ ''250'' @ [] @ ''MG'' @ '' Syrup'')"
    by simp
  then show ?thesis by simp
qed

theorem dosage_key_counterexample:
  "extract_dosage ''Paracetamol 500 mg'' = ''500 mg'' \<and>
   extract_dosage ''Paracetamol 500mg'' = ''500mg''"
  by code_simp

end
